theory Spec2Isabelle
  imports Complex_Main "HOL-Library.AList" "HOL-Library.Char_ord"
begin

section \<open>Common Python notions\<close>

text \<open>
  The exceptions the modelled code can raise.  A function that may raise returns
  \<open>py_error + 'a\<close>, with \<open>Inl\<close> for the exception.
\<close>

datatype py_error = IndexError | ZeroDivisionError

text \<open>
  The literal \<^verbatim>\<open>'abcdefghijklmnopqrstuvwxyz'\<close> that the environment and the predictor
  both write out.
\<close>

definition alphabet :: string where
  "alphabet = ''abcdefghijklmnopqrstuvwxyz''"

definition uppercase :: string where
  "uppercase = ''ABCDEFGHIJKLMNOPQRSTUVWXYZ''"

text \<open>
  \<^verbatim>\<open>str.lower()\<close> on one character, and on a string.  Characters are the 8-bit
  characters of HOL, so only the ASCII letters have a case.
\<close>

definition lower_char :: "char \<Rightarrow> char" where
  "lower_char c = (case map_of (zip uppercase alphabet) c of None \<Rightarrow> c | Some l \<Rightarrow> l)"

definition lower :: "string \<Rightarrow> string" where
  "lower w = map lower_char w"

text \<open>\<^verbatim>\<open>random.choice(seq)\<close>, with the index drawn by the generator as a parameter.\<close>

definition random_choice :: "'a list \<Rightarrow> nat \<Rightarrow> py_error + 'a" where
  "random_choice xs r = (if xs = [] then Inl IndexError else Inr (xs ! (r mod length xs)))"

section \<open>The game environment (hangman\_env.py)\<close>

text \<open>
  The fields of \<^verbatim>\<open>HangmanEnvironment\<close>.  A guess is a one-character string and is
  modelled as a \<^typ>\<open>char\<close>; \<^verbatim>\<open>max_wrong\<close> is any Python integer.  The record
  describes an environment on which \<^verbatim>\<open>reset\<close> has run, so that the target and the mask
  are strings.
\<close>

record env =
  max_wrong :: int
  word_list :: "string list"
  target_word :: string
  masked_word :: string
  guessed_letters :: "char set"
  wrong_guesses :: int
  game_over :: bool
  won :: bool

text \<open>The dictionary built by \<^verbatim>\<open>_get_state\<close>.\<close>

record game_state =
  gs_masked_word :: string
  gs_guessed_letters :: "char set"
  gs_wrong_guesses :: int
  gs_lives_remaining :: int
  gs_game_over :: bool
  gs_won :: bool
  gs_target_word :: string

text \<open>The \<^verbatim>\<open>info\<close> dictionary of \<^verbatim>\<open>step\<close>, without its display message.\<close>

record info =
  repeated :: bool
  correct :: bool

definition get_state :: "env \<Rightarrow> game_state" where
  "get_state e =
     \<lparr> gs_masked_word = masked_word e,
       gs_guessed_letters = guessed_letters e,
       gs_wrong_guesses = wrong_guesses e,
       gs_lives_remaining = max_wrong e - wrong_guesses e,
       gs_game_over = game_over e,
       gs_won = won e,
       gs_target_word = target_word e \<rparr>"

text \<open>
  \<^verbatim>\<open>reset(word)\<close>: the word given, lowercased, or a random word of the list as it is.
\<close>

definition reset :: "env \<Rightarrow> string option \<Rightarrow> nat \<Rightarrow> py_error + (env \<times> game_state)" where
  "reset e word r =
     (case (case word of None \<Rightarrow> random_choice (word_list e) r | Some w \<Rightarrow> Inr (lower w)) of
        Inl err \<Rightarrow> Inl err
      | Inr t \<Rightarrow>
          (let e' = e \<lparr> target_word := t,
                        masked_word := replicate (length t) (CHR ''_''),
                        guessed_letters := {},
                        wrong_guesses := 0,
                        game_over := False,
                        won := False \<rparr>
           in Inr (e', get_state e')))"

text \<open>
  The loop of \<^verbatim>\<open>step\<close> over \<^verbatim>\<open>enumerate(self.target_word)\<close>: the arguments are the
  letter, the rest of the target, the index \<open>i\<close>, and the loop variables
  \<^verbatim>\<open>new_masked\<close> and \<^verbatim>\<open>occurrences\<close>.  An assignment past the end of
  \<^verbatim>\<open>new_masked\<close> raises.
\<close>

fun reveal :: "char \<Rightarrow> string \<Rightarrow> nat \<Rightarrow> string \<Rightarrow> int \<Rightarrow> py_error + (string \<times> int)" where
  "reveal letter [] i new_masked occurrences = Inr (new_masked, occurrences)"
| "reveal letter (c # cs) i new_masked occurrences =
     (if c = letter then
        (if i < length new_masked
         then reveal letter cs (Suc i) (new_masked[i := letter]) (occurrences + 1)
         else Inl IndexError)
      else reveal letter cs (Suc i) new_masked occurrences)"

text \<open>
  \<^verbatim>\<open>step(letter)\<close> returns the environment after the call and the tuple
  \<^verbatim>\<open>(state, reward, self.game_over, info)\<close>.
\<close>

definition step :: "env \<Rightarrow> char \<Rightarrow> py_error + (env \<times> game_state \<times> int \<times> bool \<times> info)" where
  "step e l =
     (let letter = lower_char l;
          is_repeated = (letter \<in> guessed_letters e);
          e1 = e \<lparr> guessed_letters := insert letter (guessed_letters e) \<rparr>
      in
      if is_repeated then
        Inr (e1, get_state e1, - 2, game_over e1, \<lparr> repeated = True, correct = False \<rparr>)
      else if letter \<in> set (target_word e1) then
        (case reveal letter (target_word e1) 0 (masked_word e1) 0 of
           Inl err \<Rightarrow> Inl err
         | Inr (new_masked, occurrences) \<Rightarrow>
             (let e2 = e1 \<lparr> masked_word := new_masked \<rparr>;
                  reward = 10 * occurrences
              in
              if CHR ''_'' \<notin> set (masked_word e2) then
                (let e3 = e2 \<lparr> won := True, game_over := True \<rparr>
                 in Inr (e3, get_state e3, reward + 100, game_over e3,
                         \<lparr> repeated = False, correct = True \<rparr>))
              else
                Inr (e2, get_state e2, reward, game_over e2,
                     \<lparr> repeated = False, correct = True \<rparr>)))
      else
        (let e2 = e1 \<lparr> wrong_guesses := wrong_guesses e1 + 1 \<rparr>;
             reward = - 5
         in
         if wrong_guesses e2 \<ge> max_wrong e2 then
           (let e3 = e2 \<lparr> game_over := True \<rparr>
            in Inr (e3, get_state e3, reward - 50, game_over e3,
                    \<lparr> repeated = False, correct = False \<rparr>))
         else
           Inr (e2, get_state e2, reward, game_over e2,
                \<lparr> repeated = False, correct = False \<rparr>)))"

text \<open>\<^verbatim>\<open>get_available_actions\<close>: the alphabet without the guessed letters.\<close>

definition get_available_actions :: "env \<Rightarrow> char list" where
  "get_available_actions e = filter (\<lambda>c. c \<notin> guessed_letters e) alphabet"

text \<open>A sequence of \<^verbatim>\<open>step\<close> calls, one for each letter of the list.\<close>

fun steps :: "env \<Rightarrow> char list \<Rightarrow> py_error + env" where
  "steps e [] = Inr e"
| "steps e (l # ls) =
     (case step e l of Inl err \<Rightarrow> Inl err | Inr (e', _) \<Rightarrow> steps e' ls)"

text \<open>
  The episode loop of the agent's \<^verbatim>\<open>train\<close> and \<^verbatim>\<open>evaluate\<close>,
  \<^verbatim>\<open>while not state['game_over']: ... env.step(action)\<close>, with the chosen actions
  given as a list: a step is taken only while the game is not over.
\<close>

fun play :: "env \<Rightarrow> char list \<Rightarrow> py_error + env" where
  "play e [] = Inr e"
| "play e (l # ls) =
     (if game_over e then Inr e
      else (case step e l of Inl err \<Rightarrow> Inl err | Inr (e', _) \<Rightarrow> play e' ls))"

section \<open>The letter predictor (hangman\_hmm.py)\<close>

subsection \<open>Dictionaries\<close>

text \<open>
  A dictionary whose items the code iterates is an association list in insertion order:
  \<^const>\<open>AList.update\<close> replaces the value of a key that is present and puts a new key at
  the end, as an assignment to a Python dictionary does.  \<open>dict_get\<close> is
  \<^verbatim>\<open>d.get(k, default)\<close>, and \<open>dict_add\<close> is \<^verbatim>\<open>d[k] += x\<close> on a
  \<^verbatim>\<open>defaultdict\<close> whose default is zero.  Probabilities and scores are Python floats;
  they are modelled as real numbers, so that the arithmetic of the model is exact.
\<close>

definition dict_get :: "('k \<times> 'v) list \<Rightarrow> 'k \<Rightarrow> 'v \<Rightarrow> 'v" where
  "dict_get d k dflt = (case map_of d k of None \<Rightarrow> dflt | Some v \<Rightarrow> v)"

definition dict_add :: "('k \<times> 'v::{zero,plus}) list \<Rightarrow> 'k \<Rightarrow> 'v \<Rightarrow> ('k \<times> 'v) list" where
  "dict_add d k x = AList.update k (dict_get d k 0 + x) d"

text \<open>
  The comprehensions \<^verbatim>\<open>{k: v / total for k, v in d.items()}\<close>: a division is
  evaluated for each item, and raises when the total is zero.  (The variable \<^verbatim>\<open>total\<close>
  of the source is \<open>tot\<close> here.)
\<close>

definition divide_counts :: "(char \<times> nat) list \<Rightarrow> nat \<Rightarrow> py_error + (char \<times> real) list" where
  "divide_counts counts tot =
     (if counts \<noteq> [] \<and> tot = 0 then Inl ZeroDivisionError
      else Inr (map (\<lambda>(letter, count). (letter, real count / real tot)) counts))"

definition divide_values :: "(char \<times> real) list \<Rightarrow> real \<Rightarrow> py_error + (char \<times> real) list" where
  "divide_values d tot =
     (if d \<noteq> [] \<and> tot = 0 then Inl ZeroDivisionError
      else Inr (map (\<lambda>(k, v). (k, v / tot)) d))"

subsection \<open>The trained model\<close>

text \<open>
  A length model is the dictionary \<^verbatim>\<open>{'emission_probs': ..., 'words': ...}\<close>; the
  predictor holds the two dictionaries \<^verbatim>\<open>models\<close> and \<^verbatim>\<open>letter_frequencies\<close>,
  both keyed by word length and empty after \<^verbatim>\<open>__init__\<close>.
\<close>

record length_model =
  emission_probs :: "(char \<times> real) list list"
  words :: "string list"

record hmm =
  models :: "(nat \<times> length_model) list"
  letter_frequencies :: "(nat \<times> (char \<times> real) list) list"

definition new_hmm :: hmm where
  "new_hmm = \<lparr> models = [], letter_frequencies = [] \<rparr>"

text \<open>\<^verbatim>\<open>str.isalpha()\<close>, for ASCII strings: not empty and letters only.\<close>

definition isalpha :: "string \<Rightarrow> bool" where
  "isalpha w \<longleftrightarrow> w \<noteq> [] \<and> list_all (\<lambda>c. c \<in> set alphabet \<or> c \<in> set uppercase) w"

text \<open>The grouping loop of \<^verbatim>\<open>train\<close>, on the words read from the corpus file.\<close>

definition words_by_length :: "string list \<Rightarrow> (nat \<times> string list) list" where
  "words_by_length corpus =
     fold (\<lambda>word wbl.
             if isalpha word
             then AList.update (length word) (dict_get wbl (length word) [] @ [word]) wbl
             else wbl)
          corpus []"

text \<open>
  \<^verbatim>\<open>_train_length_model\<close>: the loop over \<^verbatim>\<open>enumerate(word)\<close>, which raises when the
  position is past the end of the two lists of length \<^verbatim>\<open>length\<close>; the loop over the
  words; and the loop over \<^verbatim>\<open>range(length)\<close> that turns counts into probabilities.
\<close>

fun count_letters ::
  "string \<Rightarrow> nat \<Rightarrow> (char \<times> nat) list list \<Rightarrow> nat list
     \<Rightarrow> py_error + ((char \<times> nat) list list \<times> nat list)" where
  "count_letters [] pos emission_counts position_totals =
     Inr (emission_counts, position_totals)"
| "count_letters (letter # rest) pos emission_counts position_totals =
     (if pos < length emission_counts \<and> pos < length position_totals then
        count_letters rest (Suc pos)
          (emission_counts[pos := dict_add (emission_counts ! pos) letter 1])
          (position_totals[pos := position_totals ! pos + 1])
      else Inl IndexError)"

fun count_words ::
  "string list \<Rightarrow> (char \<times> nat) list list \<Rightarrow> nat list
     \<Rightarrow> py_error + ((char \<times> nat) list list \<times> nat list)" where
  "count_words [] emission_counts position_totals = Inr (emission_counts, position_totals)"
| "count_words (word # rest) emission_counts position_totals =
     (case count_letters word 0 emission_counts position_totals of
        Inl err \<Rightarrow> Inl err
      | Inr (emission_counts', position_totals') \<Rightarrow>
          count_words rest emission_counts' position_totals')"

fun emission_loop ::
  "nat list \<Rightarrow> (char \<times> nat) list list \<Rightarrow> nat list \<Rightarrow> py_error + (char \<times> real) list list" where
  "emission_loop [] emission_counts position_totals = Inr []"
| "emission_loop (pos # rest) emission_counts position_totals =
     (case divide_counts (emission_counts ! pos) (position_totals ! pos) of
        Inl err \<Rightarrow> Inl err
      | Inr pos_probs \<Rightarrow>
          (case emission_loop rest emission_counts position_totals of
             Inl err \<Rightarrow> Inl err
           | Inr probs \<Rightarrow> Inr (pos_probs # probs)))"

definition train_length_model :: "string list \<Rightarrow> nat \<Rightarrow> py_error + length_model" where
  "train_length_model ws n =
     (case count_words ws (replicate n []) (replicate n 0) of
        Inl err \<Rightarrow> Inl err
      | Inr (emission_counts, position_totals) \<Rightarrow>
          (case emission_loop [0..<n] emission_counts position_totals of
             Inl err \<Rightarrow> Inl err
           | Inr probs \<Rightarrow> Inr \<lparr> emission_probs = probs, words = ws \<rparr>))"

text \<open>\<^verbatim>\<open>Counter(all_letters)\<close> and \<^verbatim>\<open>_calculate_frequencies\<close>.\<close>

definition counter :: "char list \<Rightarrow> (char \<times> nat) list" where
  "counter xs = fold (\<lambda>x c. dict_add c x 1) xs []"

definition calculate_frequencies :: "string list \<Rightarrow> py_error + (char \<times> real) list" where
  "calculate_frequencies ws =
     (let all_letters = concat ws;
          tot = length all_letters
      in divide_counts (counter all_letters) tot)"

text \<open>
  The training loop over \<^verbatim>\<open>words_by_length.items()\<close>, and \<^verbatim>\<open>train\<close> itself, which
  takes the predictor and the list of words read from the corpus file.
\<close>

fun train_loop :: "(nat \<times> string list) list \<Rightarrow> hmm \<Rightarrow> py_error + hmm" where
  "train_loop [] h = Inr h"
| "train_loop ((n, ws) # rest) h =
     (case train_length_model ws n of
        Inl err \<Rightarrow> Inl err
      | Inr m \<Rightarrow>
          (case calculate_frequencies ws of
             Inl err \<Rightarrow> Inl err
           | Inr freq \<Rightarrow>
               train_loop rest
                 (h \<lparr> models := AList.update n m (models h),
                      letter_frequencies := AList.update n freq (letter_frequencies h) \<rparr>)))"

definition train :: "hmm \<Rightarrow> string list \<Rightarrow> py_error + hmm" where
  "train h corpus = train_loop (words_by_length corpus) h"

subsection \<open>Prediction\<close>

text \<open>
  \<^verbatim>\<open>set('abcdefghijklmnopqrstuvwxyz') - guessed_letters\<close>.  The iterations over this set
  visit each of its letters once; the model visits them in alphabetical order.
\<close>

definition remaining_letters :: "char set \<Rightarrow> char list" where
  "remaining_letters guessed = filter (\<lambda>c. c \<notin> guessed) alphabet"

text \<open>
  \<^verbatim>\<open>_filter_matching_words\<close>: the inner loop over \<^verbatim>\<open>enumerate(masked_word)\<close>, which
  reads \<^verbatim>\<open>word[i]\<close> at every position and returns the value of \<^verbatim>\<open>match\<close>, and the
  loop over the words with the list \<^verbatim>\<open>matching\<close>.
\<close>

fun match_positions :: "nat \<Rightarrow> string \<Rightarrow> string \<Rightarrow> char set \<Rightarrow> py_error + bool" where
  "match_positions i [] word guessed = Inr True"
| "match_positions i (char # rest) word guessed =
     (if i < length word then
        (if char \<noteq> CHR ''_'' then
           (if word ! i \<noteq> char then Inr False
            else match_positions (Suc i) rest word guessed)
         else if word ! i \<in> guessed then Inr False
         else match_positions (Suc i) rest word guessed)
      else Inl IndexError)"

fun filter_loop :: "string list \<Rightarrow> string \<Rightarrow> char set \<Rightarrow> string list \<Rightarrow> py_error + string list" where
  "filter_loop [] masked guessed matching = Inr matching"
| "filter_loop (word # rest) masked guessed matching =
     (if length word \<noteq> length masked then filter_loop rest masked guessed matching
      else
        (case match_positions 0 masked word guessed of
           Inl err \<Rightarrow> Inl err
         | Inr match \<Rightarrow>
             filter_loop rest masked guessed (if match then matching @ [word] else matching)))"

definition filter_matching_words :: "string list \<Rightarrow> string \<Rightarrow> char set \<Rightarrow> py_error + string list" where
  "filter_matching_words ws masked guessed = filter_loop ws masked guessed []"

text \<open>
  \<^verbatim>\<open>_position_based_scoring\<close>: the loop over the remaining letters at one position, and
  the loop over the positions, which reads \<^verbatim>\<open>emission_probs[pos]\<close> for a letter at a
  placeholder.
\<close>

definition score_position ::
  "(char \<times> real) list \<Rightarrow> char list \<Rightarrow> (char \<times> real) list \<Rightarrow> (char \<times> real) list" where
  "score_position probs remaining letter_scores =
     fold (\<lambda>letter scores.
             case map_of probs letter of
               None \<Rightarrow> scores
             | Some p \<Rightarrow> dict_add scores letter p)
          remaining letter_scores"

fun position_loop ::
  "nat \<Rightarrow> string \<Rightarrow> (char \<times> real) list list \<Rightarrow> char list \<Rightarrow> (char \<times> real) list
     \<Rightarrow> py_error + (char \<times> real) list" where
  "position_loop pos [] probs remaining letter_scores = Inr letter_scores"
| "position_loop pos (char # rest) probs remaining letter_scores =
     (if char = CHR ''_'' \<and> remaining \<noteq> [] then
        (if pos < length probs then
           position_loop (Suc pos) rest probs remaining
             (score_position (probs ! pos) remaining letter_scores)
         else Inl IndexError)
      else position_loop (Suc pos) rest probs remaining letter_scores)"

definition position_based_scoring ::
  "string \<Rightarrow> (char \<times> real) list list \<Rightarrow> char list \<Rightarrow> py_error + (char \<times> real) list" where
  "position_based_scoring masked probs remaining = position_loop 0 masked probs remaining []"

text \<open>
  \<^verbatim>\<open>_frequency_based_scoring\<close>: the loop over the positions of one word, which reads
  \<^verbatim>\<open>word[pos]\<close> at a placeholder, and the loop over the words.  The counts are Python
  integers, held here in the type of the scores.
\<close>

fun frequency_positions ::
  "nat \<Rightarrow> string \<Rightarrow> string \<Rightarrow> char list \<Rightarrow> (char \<times> real) list
     \<Rightarrow> py_error + (char \<times> real) list" where
  "frequency_positions pos [] word remaining letter_scores = Inr letter_scores"
| "frequency_positions pos (char # rest) word remaining letter_scores =
     (if char = CHR ''_'' then
        (if pos < length word then
           (let letter = word ! pos
            in frequency_positions (Suc pos) rest word remaining
                 (if letter \<in> set remaining then dict_add letter_scores letter 1
                  else letter_scores))
         else Inl IndexError)
      else frequency_positions (Suc pos) rest word remaining letter_scores)"

fun frequency_loop ::
  "string list \<Rightarrow> string \<Rightarrow> char list \<Rightarrow> (char \<times> real) list
     \<Rightarrow> py_error + (char \<times> real) list" where
  "frequency_loop [] masked remaining letter_scores = Inr letter_scores"
| "frequency_loop (word # rest) masked remaining letter_scores =
     (case frequency_positions 0 masked word remaining letter_scores of
        Inl err \<Rightarrow> Inl err
      | Inr letter_scores' \<Rightarrow> frequency_loop rest masked remaining letter_scores')"

definition frequency_based_scoring ::
  "string list \<Rightarrow> string \<Rightarrow> char list \<Rightarrow> py_error + (char \<times> real) list" where
  "frequency_based_scoring ws masked remaining = frequency_loop ws masked remaining []"

text \<open>
  \<^verbatim>\<open>_fallback_probabilities\<close>: the sum of all frequency tables, used when the length
  has no table of its own, and the function.
\<close>

definition sum_frequencies :: "(char \<times> real) list list \<Rightarrow> (char \<times> real) list" where
  "sum_frequencies tables =
     fold (\<lambda>freq_dict all_freq.
             fold (\<lambda>(letter, prob) all_freq. dict_add all_freq letter prob) freq_dict all_freq)
          tables []"

definition fallback_probabilities :: "hmm \<Rightarrow> char set \<Rightarrow> nat \<Rightarrow> py_error + (char \<times> real) list" where
  "fallback_probabilities h guessed n =
     (case (case map_of (letter_frequencies h) n of
              Some freq \<Rightarrow> Inr freq
            | None \<Rightarrow>
                (let all_freq = sum_frequencies (map snd (letter_frequencies h));
                     tot = sum_list (map snd all_freq)
                 in divide_values all_freq tot)) of
        Inl err \<Rightarrow> Inl err
      | Inr freq \<Rightarrow>
          (let remaining = remaining_letters guessed;
               remaining_freq = map (\<lambda>letter. (letter, dict_get freq letter (1 / 100))) remaining;
               tot = sum_list (map snd remaining_freq)
           in divide_values remaining_freq tot))"

text \<open>
  \<^verbatim>\<open>predict_letter_probabilities\<close>.  \<open>letter_scores\<close> is the part of it that filters the
  words of the length model and scores the remaining letters.
\<close>

definition letter_scores :: "length_model \<Rightarrow> string \<Rightarrow> char set \<Rightarrow> py_error + (char \<times> real) list" where
  "letter_scores model masked guessed =
     (let remaining = remaining_letters guessed
      in case filter_matching_words (words model) masked guessed of
           Inl err \<Rightarrow> Inl err
         | Inr matching_words \<Rightarrow>
             (if length matching_words < 5
              then position_based_scoring masked (emission_probs model) remaining
              else frequency_based_scoring matching_words masked remaining))"

definition predict_letter_probabilities ::
  "hmm \<Rightarrow> string \<Rightarrow> char set \<Rightarrow> py_error + (char \<times> real) list" where
  "predict_letter_probabilities h masked guessed =
     (let n = length masked
      in case map_of (models h) n of
           None \<Rightarrow> fallback_probabilities h guessed n
         | Some model \<Rightarrow>
             (case letter_scores model masked guessed of
                Inl err \<Rightarrow> Inl err
              | Inr scores \<Rightarrow>
                  (let tot = sum_list (map snd scores)
                   in if tot = 0 then fallback_probabilities h guessed n
                      else Inr (map (\<lambda>(letter, score). (letter, score / tot)) scores))))"

section \<open>The learning agent (hangman\_agent.py)\<close>

text \<open>
  \<^verbatim>\<open>_get_state_key\<close>: the mask, the sorted tuple of the guessed letters and the lives.
\<close>

type_synonym state_key = "string \<times> char list \<times> int"

definition get_state_key :: "game_state \<Rightarrow> state_key" where
  "get_state_key state =
     (gs_masked_word state, sorted_list_of_set (gs_guessed_letters state),
      gs_lives_remaining state)"

text \<open>
  The Q-table is a \<^verbatim>\<open>defaultdict\<close> of \<^verbatim>\<open>defaultdict(float)\<close>: a map from state keys
  to rows, a row being a map from letters to values.  Reading a missing key inserts the
  default, so a read returns the table as well: \<open>q_row\<close> is \<^verbatim>\<open>self.q_table[key]\<close>
  and \<open>q_read\<close> is \<^verbatim>\<open>self.q_table[key][action]\<close>.  The type of the values is a
  parameter: over the real numbers the arithmetic of the model is exact, over
  \<open>pyfloat\<close> below the values are those of a Python float.
\<close>

type_synonym 'v q_row = "char \<rightharpoonup> 'v"

type_synonym 'v q_table = "state_key \<rightharpoonup> 'v q_row"

definition q_row :: "'v q_table \<Rightarrow> state_key \<Rightarrow> 'v q_row \<times> 'v q_table" where
  "q_row q key =
     (case q key of
        Some row \<Rightarrow> (row, q)
      | None \<Rightarrow> (Map.empty, q(key \<mapsto> Map.empty)))"

definition q_read :: "('v::zero) q_table \<Rightarrow> state_key \<Rightarrow> char \<Rightarrow> 'v \<times> 'v q_table" where
  "q_read q key action =
     (let (row, q1) = q_row q key
      in case row action of
           Some v \<Rightarrow> (v, q1)
         | None \<Rightarrow> (0, q1(key \<mapsto> row(action \<mapsto> 0))))"

text \<open>The fields of \<^verbatim>\<open>HangmanRLAgent\<close>, without the training statistics.\<close>

record 'v agent =
  hmm :: hmm
  learning_rate :: real
  discount_factor :: real
  epsilon :: real
  epsilon_end :: real
  epsilon_decay :: real
  q_table :: "'v q_table"

text \<open>
  A Python float is not a number, an infinity, or a finite value.  \<open>float_gt\<close> is the
  comparison \<^verbatim>\<open>x > y\<close> of two floats, false whenever one of them is not a number.  The
  default of \<^verbatim>\<open>defaultdict(float)\<close> is the float zero.
\<close>

datatype pyfloat = NaN | NegInf | Finite real | PosInf

fun float_gt :: "pyfloat \<Rightarrow> pyfloat \<Rightarrow> bool" where
  "float_gt NaN y = False"
| "float_gt x NaN = False"
| "float_gt NegInf y = False"
| "float_gt x NegInf = True"
| "float_gt (Finite x) (Finite y) = (x > y)"
| "float_gt (Finite x) PosInf = False"
| "float_gt PosInf (Finite y) = True"
| "float_gt PosInf PosInf = False"

instantiation pyfloat :: zero
begin

definition zero_pyfloat :: pyfloat where
  "zero_pyfloat = Finite 0"

instance ..

end

text \<open>
  What the machine computes on floats is not in the source and is a parameter of the
  model: the rounded sum and product of two floats, the float of a decimal literal, and the
  result of \<^verbatim>\<open>predict_letter_probabilities\<close> in float arithmetic.
\<close>

record machine =
  fadd :: "pyfloat \<Rightarrow> pyfloat \<Rightarrow> pyfloat"
  fmul :: "pyfloat \<Rightarrow> pyfloat \<Rightarrow> pyfloat"
  fliteral :: "real \<Rightarrow> pyfloat"
  fpredict :: "hmm \<Rightarrow> string \<Rightarrow> char set \<Rightarrow> py_error + (char \<times> pyfloat) list"

text \<open>
  \<^verbatim>\<open>choose_action\<close> with \<^verbatim>\<open>training=False\<close>: the test
  \<^verbatim>\<open>training and random.random() < self.epsilon\<close> is false and the \<^verbatim>\<open>else\<close> branch
  runs.  The loop over the available actions carries \<^verbatim>\<open>best_score\<close>, which starts as
  \<^verbatim>\<open>-float('inf')\<close>, \<^verbatim>\<open>best_action\<close>, which starts as \<^verbatim>\<open>None\<close>, and the
  Q-table, which the reads change.  The integer 10 is the float 10.0 in the product.  An
  action is a letter, a non-empty string, so the test of \<^verbatim>\<open>best_action\<close> in the
  \<^verbatim>\<open>return\<close> fails only on \<^verbatim>\<open>None\<close>.  The last argument of the function is
  the index that \<^verbatim>\<open>random.choice\<close> would draw.
\<close>

fun exploit_loop ::
  "machine \<Rightarrow> char list \<Rightarrow> state_key \<Rightarrow> (char \<times> pyfloat) list \<Rightarrow> pyfloat q_table
     \<Rightarrow> pyfloat \<Rightarrow> char option \<Rightarrow> pyfloat \<times> char option \<times> pyfloat q_table" where
  "exploit_loop m [] state_key hmm_probs q best_score best_action =
     (best_score, best_action, q)"
| "exploit_loop m (action # rest) state_key hmm_probs q best_score best_action =
     (let (q_value, q') = q_read q state_key action;
          hmm_score = fmul m (dict_get hmm_probs action (fliteral m (1 / 1000))) (Finite 10);
          combined_score = fadd m q_value hmm_score
      in if float_gt combined_score best_score
         then exploit_loop m rest state_key hmm_probs q' combined_score (Some action)
         else exploit_loop m rest state_key hmm_probs q' best_score best_action)"

definition choose_action_exploit ::
  "machine \<Rightarrow> pyfloat agent \<Rightarrow> game_state \<Rightarrow> char list \<Rightarrow> nat
     \<Rightarrow> py_error + (char option \<times> pyfloat agent)" where
  "choose_action_exploit m ag state available_actions r =
     (if available_actions = [] then Inr (None, ag)
      else
        (case fpredict m (hmm ag) (gs_masked_word state) (gs_guessed_letters state) of
           Inl err \<Rightarrow> Inl err
         | Inr hmm_probs \<Rightarrow>
             (let state_key = get_state_key state;
                  (best_score, best_action, q') =
                     exploit_loop m available_actions state_key hmm_probs (q_table ag)
                       NegInf None;
                  ag' = ag \<lparr> q_table := q' \<rparr>
              in case best_action of
                   Some action \<Rightarrow> Inr (Some action, ag')
                 | None \<Rightarrow>
                     (case random_choice available_actions r of
                        Inl err \<Rightarrow> Inl err
                      | Inr action \<Rightarrow> Inr (Some action, ag')))))"

text \<open>
  \<^verbatim>\<open>update_q_value\<close>.  The three accesses to the table are the read of
  \<^verbatim>\<open>self.q_table[state_key][action]\<close>, the read of
  \<^verbatim>\<open>self.q_table[next_state_key]\<close> when \<^verbatim>\<open>done\<close> is false, and the assignment to
  \<^verbatim>\<open>self.q_table[state_key][action]\<close>.  The parameter \<^verbatim>\<open>done\<close> is \<open>is_done\<close>
  here.  The values are real numbers: the arithmetic of the rule is exact.
\<close>

definition update_q_value ::
  "real agent \<Rightarrow> game_state \<Rightarrow> char \<Rightarrow> real \<Rightarrow> game_state \<Rightarrow> bool \<Rightarrow> real agent" where
  "update_q_value ag state action reward next_state is_done =
     (let state_key = get_state_key state;
          (current_q, q1) = q_read (q_table ag) state_key action;
          (max_next_q, q2) =
             (if is_done then (0, q1)
              else
                (let next_state_key = get_state_key next_state;
                     (next_q_values, q2) = q_row q1 next_state_key
                 in (if next_q_values \<noteq> Map.empty then Max (ran next_q_values) else 0, q2)));
          new_q = current_q
                    + learning_rate ag * (reward + discount_factor ag * max_next_q - current_q);
          (row, q3) = q_row q2 state_key
      in ag \<lparr> q_table := q3(state_key \<mapsto> row(action \<mapsto> new_q)) \<rparr>)"

section \<open>Invariants and examples\<close>

text \<open>
  The mask that shows exactly the guessed letters of a target, and the invariant of the
  environment between two calls: the mask is that of the guessed letters, every guessed
  letter is its own lowercase form, and while the game is not over the count of wrong
  guesses is zero or below \<^verbatim>\<open>max_wrong\<close>.
\<close>

abbreviation mask_of :: "char set \<Rightarrow> string \<Rightarrow> string" where
  "mask_of G t \<equiv> map (\<lambda>c. if c \<in> G then c else CHR ''_'') t"

definition env_inv :: "env \<Rightarrow> bool" where
  "env_inv e \<longleftrightarrow>
     masked_word e = mask_of (guessed_letters e) (target_word e) \<and>
     (\<forall>c \<in> guessed_letters e. lower_char c = c) \<and>
     0 \<le> wrong_guesses e \<and>
     (\<not> game_over e \<longrightarrow> wrong_guesses e = 0 \<or> wrong_guesses e < max_wrong e)"

text \<open>
  The number of wrong guesses in a sequence of guesses: a guess is wrong when its letter,
  lowercased, is neither in the set of the letters guessed before it nor in the target.
\<close>

fun wrong_count :: "string \<Rightarrow> char set \<Rightarrow> char list \<Rightarrow> nat" where
  "wrong_count target guessed [] = 0"
| "wrong_count target guessed (l # ls) =
     (if lower_char l \<notin> guessed \<and> lower_char l \<notin> set target then 1 else 0)
       + wrong_count target (insert (lower_char l) guessed) ls"

text \<open>
  Example environments: one as the constructor leaves it for the corpus
  \<^verbatim>\<open>["cat", "dog", "bat"]\<close> and a given \<^verbatim>\<open>max_wrong\<close>, and the states of a game
  on the word \<^verbatim>\<open>cat\<close>.
\<close>

definition example_env :: "int \<Rightarrow> env" where
  "example_env m =
     \<lparr> max_wrong = m, word_list = [''cat'', ''dog'', ''bat''], target_word = [],
       masked_word = [], guessed_letters = {}, wrong_guesses = 0,
       game_over = False, won = False \<rparr>"

definition cat_game :: "int \<Rightarrow> string \<Rightarrow> char set \<Rightarrow> int \<Rightarrow> bool \<Rightarrow> env" where
  "cat_game m shown G wrong over =
     \<lparr> max_wrong = m, word_list = [''cat'', ''dog'', ''bat''], target_word = ''cat'',
       masked_word = shown, guessed_letters = G, wrong_guesses = wrong,
       game_over = over, won = False \<rparr>"

text \<open>
  What training establishes of a predictor: the emission table of the model of length
  \<open>n\<close> has \<open>n\<close> positions, and every frequency in the tables is positive.
\<close>

definition wf_hmm :: "hmm \<Rightarrow> bool" where
  "wf_hmm h \<longleftrightarrow>
     (\<forall>(n, m) \<in> set (models h). length (emission_probs m) = n) \<and>
     (\<forall>(n, freq) \<in> set (letter_frequencies h). \<forall>(letter, p) \<in> set freq. 0 < p)"


text \<open>The predictor trained on the one-word corpus \<^verbatim>\<open>["ab"]\<close>.\<close>

definition ab_hmm :: hmm where
  "ab_hmm =
     \<lparr> models = [(2, \<lparr> emission_probs = [[(CHR ''a'', 1)], [(CHR ''b'', 1)]], words = [''ab''] \<rparr>)],
       letter_frequencies = [(2, [(CHR ''a'', 1 / 2), (CHR ''b'', 1 / 2)])] \<rparr>"


text \<open>
  Views of a Q-table that do not change it: the value recorded for a key and an action, if
  any; the set of the values recorded for a key; and the value that a read returns, which is
  0 where nothing is recorded.
\<close>

definition q_entry :: "'v q_table \<Rightarrow> state_key \<Rightarrow> char \<Rightarrow> 'v option" where
  "q_entry q key action = (case q key of None \<Rightarrow> None | Some row \<Rightarrow> row action)"

definition q_values :: "'v q_table \<Rightarrow> state_key \<Rightarrow> 'v set" where
  "q_values q key = (case q key of None \<Rightarrow> {} | Some row \<Rightarrow> ran row)"

definition q_value :: "('v::zero) q_table \<Rightarrow> state_key \<Rightarrow> char \<Rightarrow> 'v" where
  "q_value q key action = (case q_entry q key action of None \<Rightarrow> 0 | Some v \<Rightarrow> v)"

text \<open>
  An agent with the default parameters of the constructor, an untrained predictor and a
  given Q-table.
\<close>

definition example_agent :: "real q_table \<Rightarrow> real agent" where
  "example_agent q =
     \<lparr> hmm = new_hmm, learning_rate = 1 / 10, discount_factor = 95 / 100, epsilon = 1,
       epsilon_end = 1 / 10, epsilon_decay = 995 / 1000, q_table = q \<rparr>"


text \<open>
  The combined score that the exploitation loop computes for an action, and the invariant
  of the loop: after the actions \<open>seen\<close>, either no action is chosen, the best score is
  minus infinity and no score seen is greater than it; or the best action is one of the
  seen actions, the best score is its score and is greater than minus infinity, no score
  seen is greater, and every score seen before it is smaller or not a number.
\<close>

definition combined_score ::
  "machine \<Rightarrow> pyfloat q_table \<Rightarrow> state_key \<Rightarrow> (char \<times> pyfloat) list \<Rightarrow> char \<Rightarrow> pyfloat" where
  "combined_score m q key hmm_probs action =
     fadd m (q_value q key action)
       (fmul m (dict_get hmm_probs action (fliteral m (1 / 1000))) (Finite 10))"

definition best_so_far :: "(char \<Rightarrow> pyfloat) \<Rightarrow> char list \<Rightarrow> pyfloat \<Rightarrow> char option \<Rightarrow> bool" where
  "best_so_far c seen best_score best_action \<longleftrightarrow>
     (best_action = None \<and> best_score = NegInf \<and>
        (\<forall>j < length seen. \<not> float_gt (c (seen ! j)) NegInf)) \<or>
     (\<exists>i < length seen. best_action = Some (seen ! i) \<and> best_score = c (seen ! i) \<and>
        float_gt (c (seen ! i)) NegInf \<and>
        (\<forall>j < i. float_gt (c (seen ! i)) (c (seen ! j)) \<or> c (seen ! j) = NaN) \<and>
        (\<forall>j < length seen. \<not> float_gt (c (seen ! j)) (c (seen ! i))))"

text \<open>
  A machine for the examples: its sum and product of finite values are the exact ones,
  which are those of the floats whenever the exact result is a float; a literal is its
  exact value; and the predictor is the predictor of the model.
\<close>

fun exact_add :: "pyfloat \<Rightarrow> pyfloat \<Rightarrow> pyfloat" where
  "exact_add NaN y = NaN"
| "exact_add x NaN = NaN"
| "exact_add (Finite x) (Finite y) = Finite (x + y)"
| "exact_add PosInf NegInf = NaN"
| "exact_add NegInf PosInf = NaN"
| "exact_add PosInf y = PosInf"
| "exact_add x PosInf = PosInf"
| "exact_add NegInf y = NegInf"
| "exact_add x NegInf = NegInf"

fun exact_mul :: "pyfloat \<Rightarrow> pyfloat \<Rightarrow> pyfloat" where
  "exact_mul NaN y = NaN"
| "exact_mul x NaN = NaN"
| "exact_mul (Finite x) (Finite y) = Finite (x * y)"
| "exact_mul (Finite x) PosInf = (if x = 0 then NaN else if 0 < x then PosInf else NegInf)"
| "exact_mul (Finite x) NegInf = (if x = 0 then NaN else if 0 < x then NegInf else PosInf)"
| "exact_mul PosInf (Finite y) = (if y = 0 then NaN else if 0 < y then PosInf else NegInf)"
| "exact_mul NegInf (Finite y) = (if y = 0 then NaN else if 0 < y then NegInf else PosInf)"
| "exact_mul PosInf PosInf = PosInf"
| "exact_mul NegInf NegInf = PosInf"
| "exact_mul PosInf NegInf = NegInf"
| "exact_mul NegInf PosInf = NegInf"

definition exact_machine :: machine where
  "exact_machine =
     \<lparr> fadd = exact_add, fmul = exact_mul, fliteral = Finite,
       fpredict = (\<lambda>h masked guessed.
          case predict_letter_probabilities h masked guessed of
            Inl err \<Rightarrow> Inl err
          | Inr probs \<Rightarrow> Inr (map (\<lambda>(letter, p). (letter, Finite p)) probs)) \<rparr>"

text \<open>
  An agent with the default parameters of the constructor, the predictor trained on
  \<^verbatim>\<open>["ab"]\<close> and a given Q-table of floats, and the state dictionary of a game on
  \<^verbatim>\<open>ab\<close> before any guess.
\<close>

definition float_agent :: "pyfloat q_table \<Rightarrow> pyfloat agent" where
  "float_agent q =
     \<lparr> hmm = ab_hmm, learning_rate = 1 / 10, discount_factor = 95 / 100, epsilon = 1,
       epsilon_end = 1 / 10, epsilon_decay = 995 / 1000, q_table = q \<rparr>"

definition two_blanks :: game_state where
  "two_blanks = \<lparr> gs_masked_word = ''__'', gs_guessed_letters = {}, gs_wrong_guesses = 0,
         gs_lives_remaining = 6, gs_game_over = False, gs_won = False, gs_target_word = ''ab'' \<rparr>"


section \<open>Properties of the environment\<close>

subsection \<open>Lowercasing\<close>

lemma zip_uppercase_alphabet:
  "zip uppercase alphabet =
     [(CHR ''A'', CHR ''a''), (CHR ''B'', CHR ''b''), (CHR ''C'', CHR ''c''),
      (CHR ''D'', CHR ''d''), (CHR ''E'', CHR ''e''), (CHR ''F'', CHR ''f''),
      (CHR ''G'', CHR ''g''), (CHR ''H'', CHR ''h''), (CHR ''I'', CHR ''i''),
      (CHR ''J'', CHR ''j''), (CHR ''K'', CHR ''k''), (CHR ''L'', CHR ''l''),
      (CHR ''M'', CHR ''m''), (CHR ''N'', CHR ''n''), (CHR ''O'', CHR ''o''),
      (CHR ''P'', CHR ''p''), (CHR ''Q'', CHR ''q''), (CHR ''R'', CHR ''r''),
      (CHR ''S'', CHR ''s''), (CHR ''T'', CHR ''t''), (CHR ''U'', CHR ''u''),
      (CHR ''V'', CHR ''v''), (CHR ''W'', CHR ''w''), (CHR ''X'', CHR ''x''),
      (CHR ''Y'', CHR ''y''), (CHR ''Z'', CHR ''z'')]"
  by (simp add: uppercase_def alphabet_def)

lemma alphabet_uppercase_disjoint: "set alphabet \<inter> set uppercase = {}"
  by (simp add: alphabet_def uppercase_def)

lemma lower_char_alphabet: "c \<in> set alphabet \<Longrightarrow> lower_char c = c"
proof -
  assume "c \<in> set alphabet"
  then have "c \<notin> set uppercase" using alphabet_uppercase_disjoint by blast
  then have "c \<notin> fst ` set (zip uppercase alphabet)"
    by (auto dest: set_zip_leftD)
  then have "map_of (zip uppercase alphabet) c = None"
    by (simp add: map_of_eq_None_iff)
  then show ?thesis by (simp add: lower_char_def)
qed

lemma lower_char_cases: "lower_char c = c \<or> lower_char c \<in> set alphabet"
proof (cases "map_of (zip uppercase alphabet) c")
  case None
  then show ?thesis by (simp add: lower_char_def)
next
  case (Some l)
  then have "l \<in> set alphabet" by (auto dest!: map_of_SomeD set_zip_rightD)
  with Some show ?thesis by (simp add: lower_char_def)
qed

lemma lower_char_idem: "lower_char (lower_char c) = lower_char c"
  using lower_char_cases[of c] lower_char_alphabet[of "lower_char c"] by auto

lemma underscore_not_letter: "CHR ''_'' \<notin> set alphabet"
  by (simp add: alphabet_def)

subsection \<open>The reveal loop\<close>

lemma reveal_eq:
  "i + length cs \<le> length nm \<Longrightarrow>
   reveal letter cs i nm occ =
     Inr (take i nm
            @ map2 (\<lambda>c m. if c = letter then letter else m) cs (take (length cs) (drop i nm))
            @ drop (i + length cs) nm,
          occ + int (count_list cs letter))"
proof (induction cs arbitrary: i nm occ)
  case Nil
  then show ?case by simp
next
  case (Cons c cs)
  then have i: "i < length nm" by simp
  have d: "drop i nm = nm ! i # drop (Suc i) nm"
    using i by (simp add: Cons_nth_drop_Suc)
  show ?case
  proof (cases "c = letter")
    case True
    have "Suc i + length cs \<le> length (nm[i := letter])" using Cons.prems by simp
    from Cons.IH[OF this] True i d show ?thesis
      by (simp add: take_Suc_conv_app_nth)
  next
    case False
    have "Suc i + length cs \<le> length nm" using Cons.prems by simp
    from Cons.IH[OF this] False i d show ?thesis
      by (simp add: take_Suc_conv_app_nth)
  qed
qed

lemma map2_mask:
  "map2 (\<lambda>c m. if c = letter then letter else m) t (mask_of G t) = mask_of (insert letter G) t"
  by (induction t) auto

lemma reveal_mask:
  "reveal letter t 0 (mask_of G t) 0 =
     Inr (mask_of (insert letter G) t, int (count_list t letter))"
  using reveal_eq[of 0 t "mask_of G t" letter 0] by (simp add: map2_mask)

lemma mask_of_insert_absent:
  "letter \<notin> set t \<Longrightarrow> mask_of (insert letter G) t = mask_of G t"
  by (induction t) auto

subsection \<open>The three branches of a step\<close>

lemma step_repeated:
  "lower_char l \<in> guessed_letters e \<Longrightarrow>
   step e l = Inr (e, get_state e, - 2, game_over e, \<lparr> repeated = True, correct = False \<rparr>)"
  by (simp add: step_def Let_def insert_absorb)

lemma step_wrong:
  "lower_char l \<notin> guessed_letters e \<Longrightarrow> lower_char l \<notin> set (target_word e) \<Longrightarrow>
   step e l =
     (let e' = e \<lparr> guessed_letters := insert (lower_char l) (guessed_letters e),
                   wrong_guesses := wrong_guesses e + 1,
                   game_over := (game_over e \<or> max_wrong e \<le> wrong_guesses e + 1) \<rparr>
      in Inr (e', get_state e',
              - 5 + (if max_wrong e \<le> wrong_guesses e + 1 then - 50 else 0),
              game_over e', \<lparr> repeated = False, correct = False \<rparr>))"
  by (simp add: step_def Let_def)

lemma step_correct:
  "masked_word e = mask_of (guessed_letters e) (target_word e) \<Longrightarrow>
   lower_char l \<notin> guessed_letters e \<Longrightarrow> lower_char l \<in> set (target_word e) \<Longrightarrow>
   step e l =
     (let G = insert (lower_char l) (guessed_letters e);
          m = mask_of G (target_word e);
          e' = e \<lparr> guessed_letters := G, masked_word := m,
                   won := (won e \<or> CHR ''_'' \<notin> set m),
                   game_over := (game_over e \<or> CHR ''_'' \<notin> set m) \<rparr>
      in Inr (e', get_state e',
              10 * int (count_list (target_word e) (lower_char l))
                + (if CHR ''_'' \<notin> set m then 100 else 0),
              game_over e', \<lparr> repeated = False, correct = True \<rparr>))"
  by (simp add: step_def Let_def reveal_mask)

subsection \<open>The invariant holds after reset and is kept by every step\<close>

lemma reset_env_inv:
  assumes "reset e0 w r = Inr (s0, g0)"
  shows "env_inv s0" and "max_wrong s0 = max_wrong e0" and "guessed_letters s0 = {}"
    and "g0 = get_state s0" and "wrong_guesses s0 = 0" and "\<not> game_over s0"
  using assms
  by (auto simp: reset_def env_inv_def Let_def map_replicate_const split: sum.splits)

lemma step_env_inv:
  assumes "env_inv e"
  shows "\<exists>e' rw i. step e l = Inr (e', get_state e', rw, game_over e', i) \<and> env_inv e' \<and>
           max_wrong e' = max_wrong e \<and> target_word e' = target_word e \<and>
           guessed_letters e' = insert (lower_char l) (guessed_letters e) \<and>
           (game_over e \<longrightarrow> game_over e') \<and>
           (\<not> game_over e \<longrightarrow> wrong_guesses e' \<le> max 1 (max_wrong e))"
proof -
  consider (rep) "lower_char l \<in> guessed_letters e"
    | (cor) "lower_char l \<notin> guessed_letters e" "lower_char l \<in> set (target_word e)"
    | (wrg) "lower_char l \<notin> guessed_letters e" "lower_char l \<notin> set (target_word e)"
    by blast
  then show ?thesis
  proof cases
    case rep
    with assms show ?thesis
      by (auto simp: step_repeated env_inv_def insert_absorb)
  next
    case cor
    from assms have m: "masked_word e = mask_of (guessed_letters e) (target_word e)"
      by (simp add: env_inv_def)
    define G where "G = insert (lower_char l) (guessed_letters e)"
    define e' where
      "e' = e \<lparr> guessed_letters := G, masked_word := mask_of G (target_word e),
                won := (won e \<or> CHR ''_'' \<notin> set (mask_of G (target_word e))),
                game_over := (game_over e \<or> CHR ''_'' \<notin> set (mask_of G (target_word e))) \<rparr>"
    have st: "step e l =
        Inr (e', get_state e',
             10 * int (count_list (target_word e) (lower_char l))
               + (if CHR ''_'' \<notin> set (mask_of G (target_word e)) then 100 else 0),
             game_over e', \<lparr> repeated = False, correct = True \<rparr>)"
      by (simp add: step_correct[OF m cor] Let_def e'_def G_def)
    have sel: "guessed_letters e' = G" "masked_word e' = mask_of G (target_word e)"
      "target_word e' = target_word e" "max_wrong e' = max_wrong e"
      "wrong_guesses e' = wrong_guesses e" "game_over e \<longrightarrow> game_over e'"
      "\<not> game_over e' \<longrightarrow> \<not> game_over e"
      by (simp_all add: e'_def)
    have inv: "env_inv e'"
      unfolding env_inv_def sel using assms sel(7)
      by (auto simp: env_inv_def G_def lower_char_idem)
    from assms have "\<not> game_over e \<longrightarrow> wrong_guesses e' \<le> max 1 (max_wrong e)"
      unfolding sel by (auto simp: env_inv_def)
    with st inv sel show ?thesis unfolding G_def by blast
  next
    case wrg
    define e' where
      "e' = e \<lparr> guessed_letters := insert (lower_char l) (guessed_letters e),
                wrong_guesses := wrong_guesses e + 1,
                game_over := (game_over e \<or> max_wrong e \<le> wrong_guesses e + 1) \<rparr>"
    have st: "step e l =
        Inr (e', get_state e',
             - 5 + (if max_wrong e \<le> wrong_guesses e + 1 then - 50 else 0),
             game_over e', \<lparr> repeated = False, correct = False \<rparr>)"
      by (simp add: step_wrong[OF wrg] Let_def e'_def)
    have sel: "guessed_letters e' = insert (lower_char l) (guessed_letters e)"
      "masked_word e' = masked_word e"
      "target_word e' = target_word e" "max_wrong e' = max_wrong e"
      "wrong_guesses e' = wrong_guesses e + 1"
      "game_over e' = (game_over e \<or> max_wrong e \<le> wrong_guesses e + 1)"
      by (simp_all add: e'_def)
    have inv: "env_inv e'"
      unfolding env_inv_def sel using assms wrg(2)
      by (auto simp: env_inv_def lower_char_idem mask_of_insert_absent)
    from assms have "\<not> game_over e \<longrightarrow> wrong_guesses e' \<le> max 1 (max_wrong e)"
      unfolding sel by (auto simp: env_inv_def)
    with st inv sel show ?thesis by blast
  qed
qed

lemma steps_env_inv:
  "env_inv e \<Longrightarrow>
   \<exists>e'. steps e ls = Inr e' \<and> env_inv e' \<and> max_wrong e' = max_wrong e \<and>
        target_word e' = target_word e \<and>
        guessed_letters e' = guessed_letters e \<union> lower_char ` set ls"
proof (induction ls arbitrary: e)
  case Nil
  then show ?case by simp
next
  case (Cons l ls)
  from step_env_inv[OF Cons.prems, of l] obtain e1 rw i where
    s: "step e l = Inr (e1, get_state e1, rw, game_over e1, i)" and i1: "env_inv e1"
    and k: "max_wrong e1 = max_wrong e" "target_word e1 = target_word e"
      "guessed_letters e1 = insert (lower_char l) (guessed_letters e)"
    by blast
  from Cons.IH[OF i1] s k show ?case by auto
qed

lemma play_env_inv:
  "env_inv e \<Longrightarrow> wrong_guesses e \<le> max 1 (max_wrong e) \<Longrightarrow>
   \<exists>e'. play e ls = Inr e' \<and> env_inv e' \<and> max_wrong e' = max_wrong e \<and>
        wrong_guesses e' \<le> max 1 (max_wrong e)"
proof (induction ls arbitrary: e)
  case Nil
  then show ?case by simp
next
  case (Cons l ls)
  show ?case
  proof (cases "game_over e")
    case True
    with Cons.prems show ?thesis by simp
  next
    case False
    from step_env_inv[OF Cons.prems(1), of l] False obtain e1 rw i where
      s: "step e l = Inr (e1, get_state e1, rw, game_over e1, i)" and i1: "env_inv e1"
      and k: "max_wrong e1 = max_wrong e" "wrong_guesses e1 \<le> max 1 (max_wrong e)"
      by blast
    from Cons.IH[OF i1] k have
      "\<exists>e'. play e1 ls = Inr e' \<and> env_inv e' \<and> max_wrong e' = max_wrong e1 \<and>
        wrong_guesses e' \<le> max 1 (max_wrong e1)" by simp
    with s k False show ?thesis by auto
  qed
qed

lemma reachable_env_inv:
  assumes "reset e0 w r = Inr (s0, g0)"
  shows "\<exists>e. steps s0 ls = Inr e \<and> env_inv e \<and> max_wrong e = max_wrong e0 \<and>
           guessed_letters e = lower_char ` set ls"
  using steps_env_inv[OF reset_env_inv(1)[OF assms], of ls] reset_env_inv(2,3)[OF assms]
  by auto

subsection \<open>The example game\<close>

lemma reset_cat:
  "reset (example_env m) (Some ''Cat'') 0 =
     Inr (cat_game m ''___'' {} 0 False, get_state (cat_game m ''___'' {} 0 False))"
  by (simp add: reset_def example_env_def cat_game_def lower_def lower_char_def
      zip_uppercase_alphabet Let_def)

lemma steps_cat_a:
  "steps (cat_game m ''___'' {} 0 False) ''a'' = Inr (cat_game m ''_a_'' {CHR ''a''} 0 False)"
  by (simp add: cat_game_def step_def lower_char_def zip_uppercase_alphabet Let_def)

lemma step_cat_z:
  "step (cat_game m ''___'' {} 0 False) (CHR ''z'') =
     Inr (cat_game m ''___'' {CHR ''z''} 1 (m \<le> 1),
          get_state (cat_game m ''___'' {CHR ''z''} 1 (m \<le> 1)),
          - 5 + (if m \<le> 1 then - 50 else 0), m \<le> 1,
          \<lparr> repeated = False, correct = False \<rparr>)"
  by (simp add: cat_game_def step_def lower_char_def zip_uppercase_alphabet Let_def)

lemma steps_cat_zyx:
  "steps (cat_game 2 ''___'' {} 0 False) ''zyx'' =
     Inr (cat_game 2 ''___'' {CHR ''x'', CHR ''y'', CHR ''z''} 3 True)"
  by (simp add: cat_game_def step_def lower_char_def zip_uppercase_alphabet Let_def insert_commute)

lemma play_cat_zyx:
  "play (cat_game 2 ''___'' {} 0 False) ''zyx'' =
     Inr (cat_game 2 ''___'' {CHR ''y'', CHR ''z''} 2 True)"
  by (simp add: cat_game_def step_def lower_char_def zip_uppercase_alphabet Let_def insert_commute)


subsection \<open>Counting the wrong guesses\<close>

lemma step_wrong_guesses:
  assumes "env_inv e" and "step e l = Inr (e', g, rw, d, i)"
  shows "wrong_guesses e' =
           wrong_guesses e
             + (if lower_char l \<notin> guessed_letters e \<and> lower_char l \<notin> set (target_word e)
                then 1 else 0)"
proof -
  consider (rep) "lower_char l \<in> guessed_letters e"
    | (cor) "lower_char l \<notin> guessed_letters e" "lower_char l \<in> set (target_word e)"
    | (wrg) "lower_char l \<notin> guessed_letters e" "lower_char l \<notin> set (target_word e)"
    by blast
  then show ?thesis
  proof cases
    case rep
    with assms(2) show ?thesis by (simp add: step_repeated)
  next
    case cor
    from assms(1) have m: "masked_word e = mask_of (guessed_letters e) (target_word e)"
      by (simp add: env_inv_def)
    from assms(2) cor show ?thesis
      unfolding step_correct[OF m cor] Let_def by auto
  next
    case wrg
    from assms(2) wrg show ?thesis
      unfolding step_wrong[OF wrg] Let_def by auto
  qed
qed

lemma steps_wrong_count:
  "env_inv e \<Longrightarrow>
   \<exists>e'. steps e ls = Inr e' \<and> env_inv e' \<and> max_wrong e' = max_wrong e \<and>
        wrong_guesses e' =
          wrong_guesses e + int (wrong_count (target_word e) (guessed_letters e) ls)"
proof (induction ls arbitrary: e)
  case Nil
  then show ?case by simp
next
  case (Cons l ls)
  from step_env_inv[OF Cons.prems, of l] obtain e1 rw i where
    s: "step e l = Inr (e1, get_state e1, rw, game_over e1, i)" and i1: "env_inv e1"
    and k: "max_wrong e1 = max_wrong e" "target_word e1 = target_word e"
      "guessed_letters e1 = insert (lower_char l) (guessed_letters e)"
    by blast
  note w = step_wrong_guesses[OF Cons.prems s]
  from Cons.IH[OF i1] obtain e' where
    r: "steps e1 ls = Inr e'" "env_inv e'" "max_wrong e' = max_wrong e1"
    "wrong_guesses e' =
       wrong_guesses e1 + int (wrong_count (target_word e1) (guessed_letters e1) ls)"
    by blast
  have "steps e (l # ls) = Inr e'" using s r(1) by simp
  moreover have "wrong_guesses e' =
      wrong_guesses e + int (wrong_count (target_word e) (guessed_letters e) (l # ls))"
    using r(4) w k by simp
  ultimately show ?case using r(2,3) k(1) by auto
qed

lemma play_prefix:
  "env_inv e \<Longrightarrow>
   \<exists>n e'. n \<le> length ls \<and> play e ls = Inr e' \<and> steps e (take n ls) = Inr e' \<and>
        (n < length ls \<longrightarrow> game_over e')"
proof (induction ls arbitrary: e)
  case Nil
  then show ?case by simp
next
  case (Cons l ls)
  show ?case
  proof (cases "game_over e")
    case True
    then have "0 \<le> length (l # ls) \<and> play e (l # ls) = Inr e \<and>
        steps e (take 0 (l # ls)) = Inr e \<and> (0 < length (l # ls) \<longrightarrow> game_over e)"
      by simp
    then show ?thesis by blast
  next
    case False
    from step_env_inv[OF Cons.prems, of l] obtain e1 rw i where
      s: "step e l = Inr (e1, get_state e1, rw, game_over e1, i)" and i1: "env_inv e1"
      by blast
    from Cons.IH[OF i1] obtain n e' where
      r: "n \<le> length ls" "play e1 ls = Inr e'" "steps e1 (take n ls) = Inr e'"
      "n < length ls \<longrightarrow> game_over e'" by blast
    have "Suc n \<le> length (l # ls) \<and> play e (l # ls) = Inr e' \<and>
        steps e (take (Suc n) (l # ls)) = Inr e' \<and> (Suc n < length (l # ls) \<longrightarrow> game_over e')"
      using False s r by simp
    then show ?thesis by blast
  qed
qed

lemma wrong_count_distinct:
  "distinct ls \<Longrightarrow> set ls \<subseteq> set alphabet \<Longrightarrow> set ls \<inter> guessed = {} \<Longrightarrow>
   wrong_count target guessed ls = length (filter (\<lambda>l. l \<notin> set target) ls)"
proof (induction ls arbitrary: guessed)
  case Nil
  then show ?case by simp
next
  case (Cons l ls)
  then have lc: "lower_char l = l" by (simp add: lower_char_alphabet)
  have "set ls \<inter> insert l guessed = {}" using Cons.prems by auto
  with Cons.IH[of "insert l guessed"] Cons.prems
  have "wrong_count target (insert l guessed) ls = length (filter (\<lambda>l. l \<notin> set target) ls)"
    by simp
  moreover have "l \<notin> guessed" using Cons.prems by auto
  ultimately show ?case by (simp add: lc)
qed


subsection \<open>Rewards\<close>

text \<open>
  Claim C3, at \<^verbatim>\<open>max_wrong = 0\<close>: after \<^verbatim>\<open>reset("cat")\<close> the game is not over and
  \<^verbatim>\<open>z\<close> is a fresh letter that is not in the word.  The guess raises the count of
  wrong guesses to 1, which is not \<^verbatim>\<open>max_wrong\<close>, and yet the reward is \<open>-55\<close>, not
  \<open>-5\<close>: the code tests \<^verbatim>\<open>wrong_guesses >= max_wrong\<close>.
\<close>

theorem step_reward_counterexample:
  "reset (example_env 0) (Some ''Cat'') 0 =
     Inr (cat_game 0 ''___'' {} 0 False, get_state (cat_game 0 ''___'' {} 0 False)) \<and>
   \<not> game_over (cat_game 0 ''___'' {} 0 False) \<and>
   CHR ''z'' \<in> set alphabet \<and>
   CHR ''z'' \<notin> guessed_letters (cat_game 0 ''___'' {} 0 False) \<and>
   count_list (target_word (cat_game 0 ''___'' {} 0 False)) (CHR ''z'') = 0 \<and>
   step (cat_game 0 ''___'' {} 0 False) (CHR ''z'') =
     Inr (cat_game 0 ''___'' {CHR ''z''} 1 True,
          get_state (cat_game 0 ''___'' {CHR ''z''} 1 True),
          - 55, True, \<lparr> repeated = False, correct = False \<rparr>) \<and>
   wrong_guesses (cat_game 0 ''___'' {CHR ''z''} 1 True)
     \<noteq> max_wrong (cat_game 0 ''___'' {} 0 False)"
  by (simp add: reset_cat step_cat_z) (simp add: cat_game_def alphabet_def)

text \<open>
  Claim C3, amended.  In every state reached from \<^verbatim>\<open>reset\<close> by \<^verbatim>\<open>step\<close> calls, a
  \<^verbatim>\<open>step\<close> with a lowercase letter \<open>l\<close> returns, and its reward is: \<open>-2\<close> if \<open>l\<close> was
  already guessed; else, if \<open>l\<close> occurs \<open>k \<ge> 1\<close> times in the target, \<open>10 * k\<close>, plus
  \<open>100\<close> when no placeholder is left after the guess (one was there before it); else
  \<open>-5\<close>, plus \<open>-50\<close> when the count of wrong guesses, which this guess raises by one,
  is now at least \<^verbatim>\<open>max_wrong\<close>.  In a game that is not over and has
  \<^verbatim>\<open>max_wrong >= 1\<close> the raised count is at most \<^verbatim>\<open>max_wrong\<close>, so that "at least"
  is then "equal to".
\<close>

theorem step_reward:
  assumes "reset e0 w r = Inr (s0, g0)" and "steps s0 ls = Inr e" and "l \<in> set alphabet"
  shows "\<exists>e' i. step e l =
           Inr (e', get_state e',
                (if l \<in> guessed_letters e then - 2
                 else if l \<in> set (target_word e)
                 then 10 * int (count_list (target_word e) l)
                        + (if CHR ''_'' \<notin> set (masked_word e') then 100 else 0)
                 else - 5 + (if max_wrong e \<le> wrong_guesses e + 1 then - 50 else 0)),
                game_over e', i) \<and>
         wrong_guesses e' =
           (if l \<notin> guessed_letters e \<and> l \<notin> set (target_word e)
            then wrong_guesses e + 1 else wrong_guesses e) \<and>
         (l \<notin> guessed_letters e \<and> l \<in> set (target_word e) \<longrightarrow>
            1 \<le> count_list (target_word e) l \<and> CHR ''_'' \<in> set (masked_word e)) \<and>
         (\<not> game_over e \<and> 1 \<le> max_wrong e \<longrightarrow> wrong_guesses e + 1 \<le> max_wrong e)"
proof -
  from reachable_env_inv[OF assms(1), of ls] assms(2) have inv: "env_inv e" by auto
  then have m: "masked_word e = mask_of (guessed_letters e) (target_word e)"
    and w: "\<not> game_over e \<longrightarrow> wrong_guesses e = 0 \<or> wrong_guesses e < max_wrong e"
    by (simp_all add: env_inv_def)
  have lc: "lower_char l = l" using assms(3) by (rule lower_char_alphabet)
  have last: "\<not> game_over e \<and> 1 \<le> max_wrong e \<longrightarrow> wrong_guesses e + 1 \<le> max_wrong e"
    using w by auto
  consider (rep) "l \<in> guessed_letters e"
    | (cor) "l \<notin> guessed_letters e" "l \<in> set (target_word e)"
    | (wrg) "l \<notin> guessed_letters e" "l \<notin> set (target_word e)"
    by blast
  then show ?thesis
  proof cases
    case rep
    then show ?thesis using last by (simp add: step_repeated lc)
  next
    case cor
    have c: "1 \<le> count_list (target_word e) l"
      using cor(2) count_list_0_iff[of "target_word e" l]
      by (cases "count_list (target_word e) l") auto
    have p: "CHR ''_'' \<in> set (masked_word e)"
      unfolding m using cor by (auto simp: image_iff intro!: bexI[of _ l])
    from cor lc have a: "lower_char l \<notin> guessed_letters e" "lower_char l \<in> set (target_word e)"
      by simp_all
    show ?thesis
      unfolding step_correct[OF m a] Let_def lc using cor c p last
      by simp
  next
    case wrg
    from wrg lc have a: "lower_char l \<notin> guessed_letters e" "lower_char l \<notin> set (target_word e)"
      by simp_all
    show ?thesis
      unfolding step_wrong[OF a] Let_def lc using wrg last by simp
  qed
qed

theorem step_reward_witness:
  "\<exists>e' i. step (cat_game 6 ''_a_'' {CHR ''a''} 0 False) (CHR ''t'') =
     Inr (e', get_state e', 10 + (if CHR ''_'' \<notin> set (masked_word e') then 100 else 0),
          game_over e', i)"
proof -
  have l: "CHR ''t'' \<in> set alphabet" by (simp add: alphabet_def)
  from step_reward[OF reset_cat[of 6] steps_cat_a[of 6] l] show ?thesis
    by (auto simp: cat_game_def split del: if_split)
qed

subsection \<open>Repeated guesses\<close>

text \<open>
  Claim C4.  In every state reached from \<^verbatim>\<open>reset\<close> by \<^verbatim>\<open>step\<close> calls, a \<^verbatim>\<open>step\<close>
  with a letter of the guessed set returns reward \<open>-2\<close> and leaves the environment as it
  was: the mask, the guessed set, the count of wrong guesses, the lives, \<^verbatim>\<open>game_over\<close>
  and \<^verbatim>\<open>won\<close> are those of before, and the flag returned is \<^verbatim>\<open>game_over\<close>.  Hence
  after any guess, the same guess again returns the same state and flag, with reward
  \<open>-2\<close>.
\<close>

theorem repeated_guess_frame:
  assumes "reset e0 w r = Inr (s0, g0)" and "steps s0 ls = Inr e"
  shows "(l \<in> guessed_letters e \<longrightarrow>
            step e l = Inr (e, get_state e, - 2, game_over e,
                            \<lparr> repeated = True, correct = False \<rparr>)) \<and>
         (\<forall>e1 g1 r1 d1 i1. step e l = Inr (e1, g1, r1, d1, i1) \<longrightarrow>
            step e1 l = Inr (e1, g1, - 2, d1, \<lparr> repeated = True, correct = False \<rparr>))"
proof -
  from reachable_env_inv[OF assms(1), of ls] assms(2) have inv: "env_inv e" by auto
  have a: "l \<in> guessed_letters e \<longrightarrow>
            step e l = Inr (e, get_state e, - 2, game_over e,
                            \<lparr> repeated = True, correct = False \<rparr>)"
  proof
    assume "l \<in> guessed_letters e"
    with inv have "lower_char l \<in> guessed_letters e" by (auto simp: env_inv_def)
    then show "step e l = Inr (e, get_state e, - 2, game_over e,
                            \<lparr> repeated = True, correct = False \<rparr>)"
      by (rule step_repeated)
  qed
  from step_env_inv[OF inv, of l] obtain e' rw i where
    s: "step e l = Inr (e', get_state e', rw, game_over e', i)"
    and g: "guessed_letters e' = insert (lower_char l) (guessed_letters e)"
    by blast
  from g have "lower_char l \<in> guessed_letters e'" by simp
  then have "step e' l = Inr (e', get_state e', - 2, game_over e',
                            \<lparr> repeated = True, correct = False \<rparr>)"
    by (rule step_repeated)
  with s a show ?thesis by simp
qed

theorem repeated_guess_frame_witness:
  "step (cat_game 6 ''_a_'' {CHR ''a''} 0 False) (CHR ''a'') =
     Inr (cat_game 6 ''_a_'' {CHR ''a''} 0 False,
          get_state (cat_game 6 ''_a_'' {CHR ''a''} 0 False), - 2,
          game_over (cat_game 6 ''_a_'' {CHR ''a''} 0 False),
          \<lparr> repeated = True, correct = False \<rparr>)"
proof -
  have "CHR ''a'' \<in> guessed_letters (cat_game 6 ''_a_'' {CHR ''a''} 0 False)"
    by (simp add: cat_game_def)
  with repeated_guess_frame[OF reset_cat[of 6] steps_cat_a[of 6], of "CHR ''a''"] show ?thesis
    by blast
qed

subsection \<open>Lives\<close>

text \<open>
  Claim C5, at \<^verbatim>\<open>max_wrong = -1\<close>: the state that \<^verbatim>\<open>reset("cat")\<close> returns has
  \<^verbatim>\<open>game_over\<close> false and \<open>-1\<close> lives remaining.
\<close>

theorem lives_counterexample:
  "reset (example_env (- 1)) (Some ''Cat'') 0 =
     Inr (cat_game (- 1) ''___'' {} 0 False, get_state (cat_game (- 1) ''___'' {} 0 False)) \<and>
   \<not> gs_game_over (get_state (cat_game (- 1) ''___'' {} 0 False)) \<and>
   gs_lives_remaining (get_state (cat_game (- 1) ''___'' {} 0 False)) = - 1"
  by (simp add: reset_cat) (simp add: cat_game_def get_state_def)

text \<open>
  Claim C5, amended.  In every state reached from \<^verbatim>\<open>reset\<close> by \<^verbatim>\<open>step\<close> calls, the
  state dictionary of the environment satisfies
  \<^verbatim>\<open>wrong_guesses + lives_remaining = max_wrong\<close>; and when \<^verbatim>\<open>max_wrong >= 0\<close>,
  \<^verbatim>\<open>lives_remaining >= 0\<close> whenever \<^verbatim>\<open>game_over\<close> is false.  (A state with
  \<^verbatim>\<open>game_over\<close> false is reached by steps on states that are not over only, since no
  step resets the flag.)
\<close>

theorem lives_invariant:
  assumes "reset e0 w r = Inr (s0, g0)" and "steps s0 ls = Inr e"
  shows "gs_wrong_guesses (get_state e) + gs_lives_remaining (get_state e) = max_wrong e0 \<and>
         (0 \<le> max_wrong e0 \<and> \<not> gs_game_over (get_state e) \<longrightarrow>
            0 \<le> gs_lives_remaining (get_state e))"
proof -
  from reachable_env_inv[OF assms(1), of ls] assms(2)
  have "env_inv e" "max_wrong e = max_wrong e0" by auto
  then show ?thesis by (auto simp: env_inv_def get_state_def)
qed

theorem lives_invariant_witness:
  "gs_wrong_guesses (get_state (cat_game 6 ''_a_'' {CHR ''a''} 0 False))
     + gs_lives_remaining (get_state (cat_game 6 ''_a_'' {CHR ''a''} 0 False)) = 6 \<and>
   0 \<le> gs_lives_remaining (get_state (cat_game 6 ''_a_'' {CHR ''a''} 0 False))"
proof -
  have "max_wrong (example_env 6) = 6"
    "\<not> gs_game_over (get_state (cat_game 6 ''_a_'' {CHR ''a''} 0 False))"
    by (simp_all add: example_env_def cat_game_def get_state_def)
  with lives_invariant[OF reset_cat[of 6] steps_cat_a[of 6]] show ?thesis by simp
qed

subsection \<open>Loss after \<^verbatim>\<open>max_wrong\<close> wrong guesses\<close>

text \<open>
  Claim C9, at \<^verbatim>\<open>max_wrong = 0\<close>: the episode on \<^verbatim>\<open>cat\<close> that guesses \<^verbatim>\<open>z\<close> takes
  one wrong step, more than \<^verbatim>\<open>max_wrong\<close>; and before that step, with the count of
  wrong guesses already at \<^verbatim>\<open>max_wrong\<close>, the game is not over.
\<close>

theorem loss_bound_counterexample:
  "reset (example_env 0) (Some ''Cat'') 0 =
     Inr (cat_game 0 ''___'' {} 0 False, get_state (cat_game 0 ''___'' {} 0 False)) \<and>
   max_wrong (example_env 0) \<le> wrong_guesses (cat_game 0 ''___'' {} 0 False) \<and>
   \<not> game_over (cat_game 0 ''___'' {} 0 False) \<and>
   play (cat_game 0 ''___'' {} 0 False) ''z'' = Inr (cat_game 0 ''___'' {CHR ''z''} 1 True) \<and>
   wrong_count (target_word (cat_game 0 ''___'' {} 0 False)) {} ''z'' = 1 \<and>
   max_wrong (example_env 0) < wrong_guesses (cat_game 0 ''___'' {CHR ''z''} 1 True)"
  by (simp add: reset_cat step_cat_z)
    (simp add: cat_game_def example_env_def lower_char_def zip_uppercase_alphabet)

text \<open>
  Claim C9, amended.  When \<^verbatim>\<open>max_wrong >= 1\<close>: every sequence of \<^verbatim>\<open>step\<close> calls from
  \<^verbatim>\<open>reset\<close> returns, the field \<^verbatim>\<open>wrong_guesses\<close> is then the number of wrong guesses
  of the sequence, and \<^verbatim>\<open>game_over\<close> is true once that number has reached
  \<^verbatim>\<open>max_wrong\<close>.  Every episode, which steps only while the game is not over, is the
  run of a prefix of its guesses, stops before the end of them only when the game is over,
  and has made at most \<^verbatim>\<open>max_wrong\<close> wrong guesses.  For distinct lowercase letters
  the wrong guesses are the letters that are not in the target.
\<close>

theorem loss_bound:
  assumes "reset e0 w r = Inr (s0, g0)" and "1 \<le> max_wrong e0"
  shows "(\<exists>e. steps s0 ls = Inr e \<and>
              wrong_guesses e = int (wrong_count (target_word s0) {} ls) \<and>
              (max_wrong e0 \<le> int (wrong_count (target_word s0) {} ls) \<longrightarrow> game_over e)) \<and>
         (\<exists>e n. n \<le> length ls \<and> play s0 ls = Inr e \<and> steps s0 (take n ls) = Inr e \<and>
              (n < length ls \<longrightarrow> game_over e) \<and>
              int (wrong_count (target_word s0) {} (take n ls)) \<le> max_wrong e0) \<and>
         (distinct ls \<and> set ls \<subseteq> set alphabet \<longrightarrow>
            wrong_count (target_word s0) {} ls
              = length (filter (\<lambda>l. l \<notin> set (target_word s0)) ls))"
proof -
  note i0 = reset_env_inv[OF assms(1)]
  have wc: "\<exists>e. steps s0 xs = Inr e \<and> env_inv e \<and> max_wrong e = max_wrong e0 \<and>
      wrong_guesses e = int (wrong_count (target_word s0) {} xs)" for xs
    using steps_wrong_count[OF i0(1), of xs] i0(2,3,5) by simp
  from wc[of ls] obtain e where
    e: "steps s0 ls = Inr e" "env_inv e" "max_wrong e = max_wrong e0"
    "wrong_guesses e = int (wrong_count (target_word s0) {} ls)" by blast
  from e(2,3,4) assms(2)
  have "max_wrong e0 \<le> int (wrong_count (target_word s0) {} ls) \<longrightarrow> game_over e"
    by (auto simp: env_inv_def)
  with e(1,4) have a: "\<exists>e. steps s0 ls = Inr e \<and>
              wrong_guesses e = int (wrong_count (target_word s0) {} ls) \<and>
              (max_wrong e0 \<le> int (wrong_count (target_word s0) {} ls) \<longrightarrow> game_over e)"
    by blast
  from play_prefix[OF i0(1), of ls] obtain n e' where
    p: "n \<le> length ls" "play s0 ls = Inr e'" "steps s0 (take n ls) = Inr e'"
    "n < length ls \<longrightarrow> game_over e'" by blast
  have "wrong_guesses s0 \<le> max 1 (max_wrong s0)" using i0(5) by simp
  from play_env_inv[OF i0(1) this, of ls] p(2) i0(2) assms(2)
  have b1: "wrong_guesses e' \<le> max_wrong e0" by auto
  from wc[of "take n ls"] p(3)
  have "wrong_guesses e' = int (wrong_count (target_word s0) {} (take n ls))" by auto
  with b1 p have b: "\<exists>e n. n \<le> length ls \<and> play s0 ls = Inr e \<and> steps s0 (take n ls) = Inr e \<and>
              (n < length ls \<longrightarrow> game_over e) \<and>
              int (wrong_count (target_word s0) {} (take n ls)) \<le> max_wrong e0"
    by auto
  have c: "distinct ls \<and> set ls \<subseteq> set alphabet \<longrightarrow>
            wrong_count (target_word s0) {} ls
              = length (filter (\<lambda>l. l \<notin> set (target_word s0)) ls)"
    using wrong_count_distinct[of ls "{}" "target_word s0"] by simp
  from a b c show ?thesis by blast
qed

theorem loss_bound_witness:
  "steps (cat_game 2 ''___'' {} 0 False) ''zyx'' =
     Inr (cat_game 2 ''___'' {CHR ''x'', CHR ''y'', CHR ''z''} 3 True) \<and>
   wrong_guesses (cat_game 2 ''___'' {CHR ''x'', CHR ''y'', CHR ''z''} 3 True)
     = int (wrong_count ''cat'' {} ''zyx'') \<and>
   wrong_count ''cat'' {} ''zyx'' = 3 \<and>
   game_over (cat_game 2 ''___'' {CHR ''x'', CHR ''y'', CHR ''z''} 3 True) \<and>
   play (cat_game 2 ''___'' {} 0 False) ''zyx'' =
     Inr (cat_game 2 ''___'' {CHR ''y'', CHR ''z''} 2 True) \<and>
   wrong_guesses (cat_game 2 ''___'' {CHR ''y'', CHR ''z''} 2 True) \<le> 2"
proof -
  have m: "1 \<le> max_wrong (example_env 2)" by (simp add: example_env_def)
  have t: "target_word (cat_game 2 ''___'' {} 0 False) = ''cat''" by (simp add: cat_game_def)
  have d: "distinct ''zyx'' \<and> set ''zyx'' \<subseteq> set alphabet" by (simp add: alphabet_def)
  note b = loss_bound[OF reset_cat[of 2] m, of "''zyx''", unfolded t steps_cat_zyx play_cat_zyx]
  from b d have c: "wrong_count ''cat'' {} ''zyx'' = 3" by simp
  from b have "wrong_guesses (cat_game 2 ''___'' {CHR ''x'', CHR ''y'', CHR ''z''} 3 True)
     = int (wrong_count ''cat'' {} ''zyx'')" by simp
  moreover from b c have "game_over (cat_game 2 ''___'' {CHR ''x'', CHR ''y'', CHR ''z''} 3 True)"
    by (simp add: example_env_def)
  moreover have "wrong_guesses (cat_game 2 ''___'' {CHR ''y'', CHR ''z''} 2 True) \<le> 2"
    by (simp add: cat_game_def)
  ultimately show ?thesis using c steps_cat_zyx play_cat_zyx by simp
qed


subsection \<open>The mask and the target\<close>

text \<open>
  Claim C10.  Every sequence of \<^verbatim>\<open>step\<close> calls with lowercase letters from
  \<^verbatim>\<open>reset(word)\<close> returns, and in the state it reaches the mask is as long as the target,
  every position of the mask is the placeholder or the target's letter there, and a
  position is revealed exactly when the target's letter there is in the guessed set.
\<close>

theorem mask_consistent:
  assumes "reset e0 w r = Inr (s0, g0)" and "set ls \<subseteq> set alphabet"
  shows "\<exists>e. steps s0 ls = Inr e \<and>
           length (masked_word e) = length (target_word e) \<and>
           (\<forall>i < length (target_word e).
              (masked_word e ! i = CHR ''_'' \<or> masked_word e ! i = target_word e ! i) \<and>
              (masked_word e ! i \<noteq> CHR ''_'' \<longleftrightarrow> target_word e ! i \<in> guessed_letters e))"
proof -
  from reachable_env_inv[OF assms(1), of ls] obtain e where
    e: "steps s0 ls = Inr e" "env_inv e" "guessed_letters e = lower_char ` set ls" by blast
  have "lower_char ` set ls = set ls"
    using assms(2) lower_char_alphabet by (auto simp: image_iff subset_iff)
  with e(3) assms(2) underscore_not_letter have u: "CHR ''_'' \<notin> guessed_letters e" by auto
  from e(2) have m: "masked_word e = mask_of (guessed_letters e) (target_word e)"
    by (simp add: env_inv_def)
  have "length (masked_word e) = length (target_word e)" by (simp add: m)
  moreover have "\<forall>i < length (target_word e).
              (masked_word e ! i = CHR ''_'' \<or> masked_word e ! i = target_word e ! i) \<and>
              (masked_word e ! i \<noteq> CHR ''_'' \<longleftrightarrow> target_word e ! i \<in> guessed_letters e)"
    using u by (auto simp: m)
  ultimately show ?thesis using e(1) by blast
qed

theorem mask_consistent_witness:
  "length (masked_word (cat_game 6 ''_a_'' {CHR ''a''} 0 False))
     = length (target_word (cat_game 6 ''_a_'' {CHR ''a''} 0 False)) \<and>
   masked_word (cat_game 6 ''_a_'' {CHR ''a''} 0 False) ! 1 \<noteq> CHR ''_'' \<and>
   target_word (cat_game 6 ''_a_'' {CHR ''a''} 0 False) ! 1
     \<in> guessed_letters (cat_game 6 ''_a_'' {CHR ''a''} 0 False)"
proof -
  have l: "set ''a'' \<subseteq> set alphabet" by (simp add: alphabet_def)
  have t: "(1::nat) < length (target_word (cat_game 6 ''_a_'' {CHR ''a''} 0 False))"
    "masked_word (cat_game 6 ''_a_'' {CHR ''a''} 0 False) ! 1 \<noteq> CHR ''_''"
    by (simp_all add: cat_game_def)
  from mask_consistent[OF reset_cat[of 6] l] t show ?thesis
    unfolding steps_cat_a by blast
qed

section \<open>Properties of the predictor\<close>

subsection \<open>Filtering the words\<close>

lemma all_less_Suc_split: "(\<forall>j < Suc n. P j) \<longleftrightarrow> P 0 \<and> (\<forall>j < n. P (Suc j))"
  by (metis less_Suc_eq_0_disj Suc_less_eq zero_less_Suc)

lemma match_positions_eq:
  "i + length ms = length word \<Longrightarrow>
   match_positions i ms word G =
     Inr (\<forall>j < length ms. (ms ! j \<noteq> CHR ''_'' \<longrightarrow> word ! (i + j) = ms ! j) \<and>
                          (ms ! j = CHR ''_'' \<longrightarrow> word ! (i + j) \<notin> G))"
proof (induction ms arbitrary: i)
  case Nil
  then show ?case by simp
next
  case (Cons c ms)
  then have i: "i < length word" and s: "Suc i + length ms = length word" by simp_all
  show ?case
    using i Cons.IH[OF s] by (simp add: all_less_Suc_split)
qed

lemma filter_loop_eq:
  "filter_loop ws masked G acc =
     Inr (acc @ filter (\<lambda>w. length w = length masked \<and>
                 (\<forall>i < length masked. (masked ! i \<noteq> CHR ''_'' \<longrightarrow> w ! i = masked ! i) \<and>
                                       (masked ! i = CHR ''_'' \<longrightarrow> w ! i \<notin> G))) ws)"
proof (induction ws arbitrary: acc)
  case Nil
  then show ?case by simp
next
  case (Cons w ws)
  show ?case
  proof (cases "length w = length masked")
    case True
    then have "0 + length masked = length w" by simp
    from match_positions_eq[OF this, of G] True Cons.IH show ?thesis by auto
  next
    case False
    with Cons.IH show ?thesis by simp
  qed
qed

text \<open>
  Claim C6.  For every word list, masked word and guessed set,
  \<^verbatim>\<open>_filter_matching_words\<close> returns, in their order, exactly the words \<open>w\<close> as long
  as the masked word such that at every position \<open>i\<close>: if the masked character is
  revealed (is not the placeholder) then \<open>w[i]\<close> equals it, and if it is the placeholder
  then \<open>w[i]\<close> is not in the guessed set.
\<close>

theorem filter_matching_words_spec:
  "filter_matching_words ws masked guessed =
     Inr (filter (\<lambda>w. length w = length masked \<and>
                 (\<forall>i < length masked. (masked ! i \<noteq> CHR ''_'' \<longrightarrow> w ! i = masked ! i) \<and>
                                       (masked ! i = CHR ''_'' \<longrightarrow> w ! i \<notin> guessed))) ws)"
  by (simp add: filter_matching_words_def filter_loop_eq)

theorem filter_matching_words_witness:
  "filter_matching_words [''cat'', ''dog'', ''bat'', ''cart''] ''_a_'' {CHR ''a'', CHR ''c''} = Inr [''bat'']"
  unfolding filter_matching_words_spec
  by (simp add: all_less_Suc_split)

subsection \<open>Dictionaries\<close>

lemma set_update_cases:
  "(k', v') \<in> set (AList.update k v al) \<Longrightarrow> (k', v') = (k, v) \<or> (k', v') \<in> set al"
  by (induction al) (auto split: if_splits)

lemma keys_dict_add: "fst ` set (dict_add d k x) = insert k (fst ` set d)"
  by (simp add: dict_add_def dom_update)

lemma distinct_dict_add: "distinct (map fst d) \<Longrightarrow> distinct (map fst (dict_add d k x))"
  by (simp add: dict_add_def distinct_update)

lemma dict_add_nonempty: "dict_add d k x \<noteq> []"
  by (simp add: dict_add_def)

lemma dict_get_cases: "dict_get d k dflt = dflt \<or> (k, dict_get d k dflt) \<in> set d"
  by (auto simp: dict_get_def split: option.splits dest: map_of_SomeD)

lemma dict_add_pos:
  fixes d :: "('k \<times> 'v::ordered_comm_monoid_add) list"
  assumes "\<forall>(k, v) \<in> set d. 0 < v" and "0 < x"
  shows "\<forall>(k', v) \<in> set (dict_add d k x). 0 < v"
proof -
  have "0 \<le> dict_get d k 0"
    using dict_get_cases[of d k 0] assms(1) by (auto simp: less_imp_le)
  then have "0 < dict_get d k 0 + x" using assms(2) by (simp add: add_nonneg_pos)
  then show ?thesis
    using assms(1) by (auto simp: dict_add_def dest!: set_update_cases)
qed

subsection \<open>Grouping\<close>

lemma words_by_length_step:
  assumes "\<forall>(n, ws) \<in> set wbl. \<forall>w \<in> set ws. length w = n"
  shows "\<forall>(n, ws) \<in> set (AList.update (length word) (dict_get wbl (length word) [] @ [word]) wbl).
           \<forall>w \<in> set ws. length w = n"
proof -
  have "\<forall>w \<in> set (dict_get wbl (length word) []). length w = length word"
    using dict_get_cases[of wbl "length word" "[]"] assms by auto
  then show ?thesis using assms by (auto dest!: set_update_cases)
qed

lemma words_by_length_fold:
  assumes "\<forall>(n, ws) \<in> set wbl. \<forall>w \<in> set ws. length w = n"
  shows "\<forall>(n, ws) \<in> set (fold (\<lambda>word wbl.
             if isalpha word
             then AList.update (length word) (dict_get wbl (length word) [] @ [word]) wbl
             else wbl) corpus wbl). \<forall>w \<in> set ws. length w = n"
  using assms
proof (induction corpus arbitrary: wbl)
  case Nil
  then show ?case by simp
next
  case (Cons word corpus)
  show ?case
  proof (cases "isalpha word")
    case True
    then show ?thesis
      using Cons.IH[OF words_by_length_step[OF Cons.prems, of word]] by simp
  next
    case False
    then show ?thesis using Cons.IH[OF Cons.prems] by simp
  qed
qed

lemma words_by_length_lengths:
  "\<forall>(n, ws) \<in> set (words_by_length corpus). \<forall>w \<in> set ws. length w = n"
  unfolding words_by_length_def by (rule words_by_length_fold) simp

subsection \<open>Counting\<close>

lemma count_letters_ok:
  assumes "length ec = n" and "length pt = n" and "pos + length word \<le> n"
    and "\<forall>i<n. ec ! i \<noteq> [] \<longrightarrow> 0 < pt ! i"
  shows "\<exists>ec' pt'. count_letters word pos ec pt = Inr (ec', pt') \<and> length ec' = n \<and>
           length pt' = n \<and> (\<forall>i<n. ec' ! i \<noteq> [] \<longrightarrow> 0 < pt' ! i)"
  using assms
proof (induction word arbitrary: pos ec pt)
  case Nil
  then show ?case by simp
next
  case (Cons letter rest)
  let ?ec = "ec[pos := dict_add (ec ! pos) letter 1]"
  let ?pt = "pt[pos := pt ! pos + 1]"
  from Cons.prems have p: "pos < length ec" "pos < length pt" by simp_all
  have a: "length ?ec = n" "length ?pt = n" "Suc pos + length rest \<le> n"
    using Cons.prems by simp_all
  have b: "\<forall>i<n. ?ec ! i \<noteq> [] \<longrightarrow> 0 < ?pt ! i"
    using Cons.prems by (auto simp: nth_list_update)
  from Cons.IH[OF a b] p show ?case by simp
qed

lemma count_words_ok:
  assumes "length ec = n" and "length pt = n" and "\<forall>w \<in> set ws. length w \<le> n"
    and "\<forall>i<n. ec ! i \<noteq> [] \<longrightarrow> 0 < pt ! i"
  shows "\<exists>ec' pt'. count_words ws ec pt = Inr (ec', pt') \<and> length ec' = n \<and>
           length pt' = n \<and> (\<forall>i<n. ec' ! i \<noteq> [] \<longrightarrow> 0 < pt' ! i)"
  using assms
proof (induction ws arbitrary: ec pt)
  case Nil
  then show ?case by simp
next
  case (Cons w ws)
  from Cons.prems(3) have "0 + length w \<le> n" by simp
  from count_letters_ok[OF Cons.prems(1,2) this Cons.prems(4)] obtain ec1 pt1 where
    c: "count_letters w 0 ec pt = Inr (ec1, pt1)" and l: "length ec1 = n" "length pt1 = n"
    and i: "\<forall>i<n. ec1 ! i \<noteq> [] \<longrightarrow> 0 < pt1 ! i" by blast
  from Cons.prems(3) have "\<forall>w \<in> set ws. length w \<le> n" by simp
  from Cons.IH[OF l this i] c show ?case by simp
qed

lemma emission_loop_ok:
  assumes "\<forall>p \<in> set ps. p < n" and "\<forall>i<n. ec ! i \<noteq> [] \<longrightarrow> 0 < pt ! i"
  shows "\<exists>probs. emission_loop ps ec pt = Inr probs \<and> length probs = length ps"
  using assms(1)
proof (induction ps)
  case Nil
  then show ?case by simp
next
  case (Cons p ps)
  then have "p < n" by simp
  with assms(2) have "\<not> (ec ! p \<noteq> [] \<and> pt ! p = 0)" by auto
  then obtain pp where d: "divide_counts (ec ! p) (pt ! p) = Inr pp"
    by (auto simp: divide_counts_def)
  from Cons have "\<exists>probs. emission_loop ps ec pt = Inr probs \<and> length probs = length ps"
    by simp
  with d show ?case by auto
qed

lemma train_length_model_ok:
  assumes "\<forall>w \<in> set ws. length w = n"
  shows "\<exists>m. train_length_model ws n = Inr m \<and> length (emission_probs m) = n \<and> words m = ws"
proof -
  have a: "length (replicate n ([]::(char \<times> nat) list)) = n" "length (replicate n (0::nat)) = n"
    "\<forall>w \<in> set ws. length w \<le> n"
    "\<forall>i<n. replicate n ([]::(char \<times> nat) list) ! i \<noteq> [] \<longrightarrow> 0 < replicate n (0::nat) ! i"
    using assms by simp_all
  from count_words_ok[OF a] obtain ec pt where
    c: "count_words ws (replicate n []) (replicate n 0) = Inr (ec, pt)"
    and i: "\<forall>i<n. ec ! i \<noteq> [] \<longrightarrow> 0 < pt ! i" by blast
  have "\<forall>p \<in> set [0..<n]. p < n" by simp
  from emission_loop_ok[OF this i] obtain probs where
    "emission_loop [0..<n] ec pt = Inr probs" "length probs = length [0..<n]" by blast
  with c show ?thesis by (simp add: train_length_model_def)
qed

subsection \<open>Frequencies\<close>

lemma counter_fold_pos:
  assumes "\<forall>(k, c) \<in> set acc. 0 < c"
  shows "\<forall>(k, c) \<in> set (fold (\<lambda>x c. dict_add c x (1::nat)) xs acc). 0 < c"
  using assms
proof (induction xs arbitrary: acc)
  case Nil
  then show ?case by simp
next
  case (Cons x xs)
  have "\<forall>(k, c) \<in> set (dict_add acc x (1::nat)). 0 < c"
    by (rule dict_add_pos[OF Cons.prems]) simp
  from Cons.IH[OF this] show ?case by simp
qed

lemma calculate_frequencies_ok:
  "\<exists>freq. calculate_frequencies ws = Inr freq \<and> (\<forall>(letter, p) \<in> set freq. 0 < p)"
proof (cases "concat ws = []")
  case True
  have "counter (concat ws) = []" unfolding True counter_def by simp
  then show ?thesis by (simp add: calculate_frequencies_def divide_counts_def Let_def)
next
  case False
  define tot where "tot = length (concat ws)"
  from False have t: "0 < tot" by (simp add: tot_def)
  have c: "\<forall>(k, c) \<in> set (counter (concat ws)). 0 < c"
    unfolding counter_def by (rule counter_fold_pos) simp
  have "calculate_frequencies ws =
      Inr (map (\<lambda>(letter, count). (letter, real count / real tot)) (counter (concat ws)))"
    unfolding calculate_frequencies_def Let_def tot_def[symmetric] divide_counts_def
    using t by simp
  moreover have "\<forall>(letter, p) \<in> set (map (\<lambda>(letter, count). (letter, real count / real tot))
      (counter (concat ws))). 0 < p"
    using c t by auto
  ultimately show ?thesis by blast
qed

subsection \<open>Training\<close>

lemma train_loop_ok:
  assumes "\<forall>(n, ws) \<in> set groups. \<forall>w \<in> set ws. length w = n" and "wf_hmm h"
  shows "\<exists>h'. train_loop groups h = Inr h' \<and> wf_hmm h'"
  using assms
proof (induction groups arbitrary: h)
  case Nil
  then show ?case by simp
next
  case (Cons g groups)
  obtain n ws where g: "g = (n, ws)" by (cases g)
  with Cons.prems(1) have "\<forall>w \<in> set ws. length w = n" by simp
  from train_length_model_ok[OF this] obtain m where
    m: "train_length_model ws n = Inr m" "length (emission_probs m) = n" by blast
  from calculate_frequencies_ok[of ws] obtain freq where
    f: "calculate_frequencies ws = Inr freq" "\<forall>(letter, p) \<in> set freq. 0 < p" by blast
  let ?h = "h \<lparr> models := AList.update n m (models h),
                letter_frequencies := AList.update n freq (letter_frequencies h) \<rparr>"
  have "wf_hmm ?h"
    using Cons.prems(2) m(2) f(2)
    unfolding wf_hmm_def by (auto dest!: set_update_cases)
  moreover from Cons.prems(1) have "\<forall>(n, ws) \<in> set groups. \<forall>w \<in> set ws. length w = n" by simp
  ultimately have "\<exists>h'. train_loop groups ?h = Inr h' \<and> wf_hmm h'" by (rule Cons.IH[rotated])
  with g m(1) f(1) show ?case by simp
qed

lemma wf_new_hmm: "wf_hmm new_hmm"
  by (simp add: wf_hmm_def new_hmm_def)

lemma train_ok: "wf_hmm h \<Longrightarrow> \<exists>h'. train h corpus = Inr h' \<and> wf_hmm h'"
  unfolding train_def by (rule train_loop_ok[OF words_by_length_lengths])

subsection \<open>Scoring\<close>

lemma distinct_alphabet: "distinct alphabet"
  by (simp add: alphabet_def)

lemma set_remaining_letters: "set (remaining_letters guessed) = set alphabet - guessed"
  by (auto simp: remaining_letters_def)

lemma distinct_remaining_letters: "distinct (remaining_letters guessed)"
  by (simp add: remaining_letters_def distinct_alphabet)

lemma score_position_keys:
  "fst ` set (score_position probs remaining scores) \<subseteq> fst ` set scores \<union> set remaining \<and>
   (distinct (map fst scores) \<longrightarrow> distinct (map fst (score_position probs remaining scores)))"
  unfolding score_position_def
proof (induction remaining arbitrary: scores)
  case Nil
  then show ?case by simp
next
  case (Cons letter remaining)
  let ?f = "\<lambda>letter scores. case map_of probs letter of None \<Rightarrow> scores
              | Some p \<Rightarrow> dict_add scores letter p"
  have k: "fst ` set (?f letter scores) \<subseteq> insert letter (fst ` set scores)"
    and d: "distinct (map fst scores) \<longrightarrow> distinct (map fst (?f letter scores))"
    by (auto simp: keys_dict_add distinct_dict_add split: option.splits)
  from Cons[of "?f letter scores"]
  have k2: "fst ` set (fold ?f remaining (?f letter scores))
              \<subseteq> fst ` set (?f letter scores) \<union> set remaining"
    and d2: "distinct (map fst (?f letter scores))
              \<longrightarrow> distinct (map fst (fold ?f remaining (?f letter scores)))"
    by blast+
  from k k2 have "fst ` set (fold ?f remaining (?f letter scores))
      \<subseteq> fst ` set scores \<union> insert letter (set remaining)" by blast
  then have "fst ` set (fold ?f remaining (?f letter scores))
      \<subseteq> fst ` set scores \<union> set (letter # remaining)" by simp
  moreover from d d2 have "distinct (map fst scores)
      \<longrightarrow> distinct (map fst (fold ?f remaining (?f letter scores)))" by blast
  ultimately show ?case by simp
qed

lemma position_loop_ok:
  assumes "pos + length ms \<le> length probs"
  shows "\<exists>sc. position_loop pos ms probs remaining scores = Inr sc \<and>
           fst ` set sc \<subseteq> fst ` set scores \<union> set remaining \<and>
           (distinct (map fst scores) \<longrightarrow> distinct (map fst sc))"
  using assms
proof (induction ms arbitrary: pos scores)
  case Nil
  then show ?case by simp
next
  case (Cons c ms)
  then have p: "pos < length probs" and s: "Suc pos + length ms \<le> length probs" by simp_all
  show ?case
  proof (cases "c = CHR ''_'' \<and> remaining \<noteq> []")
    case True
    let ?s1 = "score_position (probs ! pos) remaining scores"
    from score_position_keys[of "probs ! pos" remaining scores]
    have k1: "fst ` set ?s1 \<subseteq> fst ` set scores \<union> set remaining"
      and d1: "distinct (map fst scores) \<longrightarrow> distinct (map fst ?s1)" by blast+
    from Cons.IH[OF s, of ?s1] obtain sc where
      r: "position_loop (Suc pos) ms probs remaining ?s1 = Inr sc"
      and k2: "fst ` set sc \<subseteq> fst ` set ?s1 \<union> set remaining"
      and d2: "distinct (map fst ?s1) \<longrightarrow> distinct (map fst sc)" by blast
    from k1 k2 have "fst ` set sc \<subseteq> fst ` set scores \<union> set remaining" by blast
    moreover from d1 d2 have "distinct (map fst scores) \<longrightarrow> distinct (map fst sc)" by blast
    moreover have "position_loop pos (c # ms) probs remaining scores = Inr sc"
      using True p r by simp
    ultimately show ?thesis by blast
  next
    case False
    from Cons.IH[OF s, of scores] obtain sc where
      r: "position_loop (Suc pos) ms probs remaining scores = Inr sc"
      and k: "fst ` set sc \<subseteq> fst ` set scores \<union> set remaining"
        "distinct (map fst scores) \<longrightarrow> distinct (map fst sc)" by blast
    have "position_loop pos (c # ms) probs remaining scores = Inr sc"
      using False r by auto
    with k show ?thesis by blast
  qed
qed

lemma frequency_positions_ok:
  assumes "pos + length ms \<le> length word"
  shows "\<exists>sc. frequency_positions pos ms word remaining scores = Inr sc \<and>
           fst ` set sc \<subseteq> fst ` set scores \<union> set remaining \<and>
           (distinct (map fst scores) \<longrightarrow> distinct (map fst sc))"
  using assms
proof (induction ms arbitrary: pos scores)
  case Nil
  then show ?case by simp
next
  case (Cons c ms)
  then have p: "pos < length word" and s: "Suc pos + length ms \<le> length word" by simp_all
  show ?case
  proof (cases "c = CHR ''_'' \<and> word ! pos \<in> set remaining")
    case True
    let ?s1 = "dict_add scores (word ! pos) 1"
    have k1: "fst ` set ?s1 \<subseteq> fst ` set scores \<union> set remaining"
      and d1: "distinct (map fst scores) \<longrightarrow> distinct (map fst ?s1)"
      using True by (auto simp: keys_dict_add distinct_dict_add)
    from Cons.IH[OF s, of ?s1] obtain sc where
      r: "frequency_positions (Suc pos) ms word remaining ?s1 = Inr sc"
      and k2: "fst ` set sc \<subseteq> fst ` set ?s1 \<union> set remaining"
      and d2: "distinct (map fst ?s1) \<longrightarrow> distinct (map fst sc)" by blast
    from k1 k2 have "fst ` set sc \<subseteq> fst ` set scores \<union> set remaining" by blast
    moreover from d1 d2 have "distinct (map fst scores) \<longrightarrow> distinct (map fst sc)" by blast
    moreover have "frequency_positions pos (c # ms) word remaining scores = Inr sc"
      using True p r by (simp add: Let_def)
    ultimately show ?thesis by blast
  next
    case False
    from Cons.IH[OF s, of scores] obtain sc where
      r: "frequency_positions (Suc pos) ms word remaining scores = Inr sc"
      and k: "fst ` set sc \<subseteq> fst ` set scores \<union> set remaining"
        "distinct (map fst scores) \<longrightarrow> distinct (map fst sc)" by blast
    have "frequency_positions pos (c # ms) word remaining scores = Inr sc"
      using False p r by (auto simp: Let_def)
    with k show ?thesis by blast
  qed
qed

lemma frequency_loop_ok:
  assumes "\<forall>w \<in> set ws. length masked \<le> length w"
  shows "\<exists>sc. frequency_loop ws masked remaining scores = Inr sc \<and>
           fst ` set sc \<subseteq> fst ` set scores \<union> set remaining \<and>
           (distinct (map fst scores) \<longrightarrow> distinct (map fst sc))"
  using assms
proof (induction ws arbitrary: scores)
  case Nil
  then show ?case by simp
next
  case (Cons w ws)
  then have "0 + length masked \<le> length w" by simp
  from frequency_positions_ok[OF this, of remaining scores] obtain s1 where
    a: "frequency_positions 0 masked w remaining scores = Inr s1"
    and k1: "fst ` set s1 \<subseteq> fst ` set scores \<union> set remaining"
    and d1: "distinct (map fst scores) \<longrightarrow> distinct (map fst s1)" by blast
  from Cons.prems have "\<forall>w \<in> set ws. length masked \<le> length w" by simp
  from Cons.IH[OF this, of s1] obtain sc where
    r: "frequency_loop ws masked remaining s1 = Inr sc"
    and k2: "fst ` set sc \<subseteq> fst ` set s1 \<union> set remaining"
    and d2: "distinct (map fst s1) \<longrightarrow> distinct (map fst sc)" by blast
  from k1 k2 have "fst ` set sc \<subseteq> fst ` set scores \<union> set remaining" by blast
  moreover from d1 d2 have "distinct (map fst scores) \<longrightarrow> distinct (map fst sc)" by blast
  moreover have "frequency_loop (w # ws) masked remaining scores = Inr sc"
    using a r by simp
  ultimately show ?case by blast
qed

lemma letter_scores_ok:
  assumes "length (emission_probs model) = length masked"
  shows "\<exists>sc. letter_scores model masked guessed = Inr sc \<and>
           fst ` set sc \<subseteq> set alphabet - guessed \<and> distinct (map fst sc)"
proof -
  define ms where "ms = filter (\<lambda>w. length w = length masked \<and>
                 (\<forall>i < length masked. (masked ! i \<noteq> CHR ''_'' \<longrightarrow> w ! i = masked ! i) \<and>
                                       (masked ! i = CHR ''_'' \<longrightarrow> w ! i \<notin> guessed))) (words model)"
  have f: "filter_matching_words (words model) masked guessed = Inr ms"
    by (simp add: filter_matching_words_def filter_loop_eq ms_def)
  have "\<exists>sc. (if length ms < 5
              then position_based_scoring masked (emission_probs model) (remaining_letters guessed)
              else frequency_based_scoring ms masked (remaining_letters guessed)) = Inr sc \<and>
           fst ` set sc \<subseteq> set (remaining_letters guessed) \<and> distinct (map fst sc)"
  proof (cases "length ms < 5")
    case True
    have "0 + length masked \<le> length (emission_probs model)" using assms by simp
    from position_loop_ok[OF this, of "remaining_letters guessed" "[]"] True
    show ?thesis by (simp add: position_based_scoring_def)
  next
    case False
    have "\<forall>w \<in> set ms. length masked \<le> length w" by (simp add: ms_def)
    from frequency_loop_ok[OF this, of "remaining_letters guessed" "[]"] False
    show ?thesis by (simp add: frequency_based_scoring_def)
  qed
  then show ?thesis
    unfolding letter_scores_def Let_def f set_remaining_letters by simp
qed

subsection \<open>The fallback and the prediction\<close>

lemma sum_list_divide_values:
  "sum_list (map snd (map (\<lambda>(k, v). (k, v / tot)) d)) = sum_list (map snd d) / (tot::real)"
  by (induction d) (auto simp: add_divide_distrib)

lemma map_fst_divide_values: "map fst (map (\<lambda>(k, v). (k, v / tot)) d) = map fst d"
  by (induction d) auto

lemma sum_list_values_pos:
  "d \<noteq> [] \<Longrightarrow> \<forall>(k, v) \<in> set d. 0 < v \<Longrightarrow> 0 < sum_list (map snd d)" for d :: "('k \<times> real) list"
proof (induction d)
  case Nil
  then show ?case by simp
next
  case (Cons x d)
  then have "0 < snd x" by auto
  moreover have "0 \<le> sum_list (map snd d)"
    using Cons by (cases "d = []") (auto simp: less_imp_le)
  ultimately show ?case by simp
qed

lemma divide_values_ok:
  fixes d :: "(char \<times> real) list"
  assumes "\<forall>(k, v) \<in> set d. 0 < v"
  shows "\<exists>r. divide_values d (sum_list (map snd d)) = Inr r \<and> map fst r = map fst d \<and>
           (\<forall>(k, v) \<in> set r. 0 < v) \<and> (d \<noteq> [] \<longrightarrow> sum_list (map snd r) = 1) \<and>
           r = map (\<lambda>(k, v). (k, v / sum_list (map snd d))) d"
proof (cases "d = []")
  case True
  then show ?thesis by (simp add: divide_values_def)
next
  case False
  define tot where "tot = sum_list (map snd d)"
  have t: "0 < tot" unfolding tot_def by (rule sum_list_values_pos[OF False assms])
  have "divide_values d tot = Inr (map (\<lambda>(k, v). (k, v / tot)) d)"
    using t by (simp add: divide_values_def)
  moreover have "\<forall>(k, v) \<in> set (map (\<lambda>(k, v). (k, v / tot)) d). 0 < v"
    using assms t by auto
  moreover have "sum_list (map snd (map (\<lambda>(k, v). (k, v / tot)) d)) = 1"
    unfolding sum_list_divide_values using t by (simp add: tot_def)
  moreover have "map fst (map (\<lambda>(k, v). (k, v / tot)) d) = map fst d"
    by (rule map_fst_divide_values)
  ultimately show ?thesis
    unfolding tot_def[symmetric] by blast
qed

lemma sum_table_pos:
  fixes all_freq :: "(char \<times> real) list"
  assumes "\<forall>(k, v) \<in> set all_freq. 0 < v" and "\<forall>(k, v) \<in> set freq_dict. 0 < v"
  shows "\<forall>(k, v) \<in> set (fold (\<lambda>(letter, prob) all_freq. dict_add all_freq letter prob)
                              freq_dict all_freq). 0 < v"
  using assms
proof (induction freq_dict arbitrary: all_freq)
  case Nil
  then show ?case by simp
next
  case (Cons x freq_dict)
  obtain letter prob where x: "x = (letter, prob)" by (cases x)
  with Cons.prems(2) have p: "0 < prob" by simp
  have a: "\<forall>(k, v) \<in> set (dict_add all_freq letter prob). 0 < v"
    by (rule dict_add_pos[OF Cons.prems(1) p])
  from Cons.prems(2) have b: "\<forall>(k, v) \<in> set freq_dict. 0 < v" by simp
  from Cons.IH[OF a b] x show ?case by simp
qed

lemma sum_frequencies_pos_aux:
  fixes all_freq :: "(char \<times> real) list"
  assumes "\<forall>(k, v) \<in> set all_freq. 0 < v"
    and "\<forall>freq_dict \<in> set tables. \<forall>(k, v) \<in> set freq_dict. 0 < v"
  shows "\<forall>(k, v) \<in> set (fold (\<lambda>freq_dict all_freq.
             fold (\<lambda>(letter, prob) all_freq. dict_add all_freq letter prob) freq_dict all_freq)
          tables all_freq). 0 < v"
  using assms
proof (induction tables arbitrary: all_freq)
  case Nil
  then show ?case by simp
next
  case (Cons t tables)
  from Cons.prems(2) have "\<forall>(k, v) \<in> set t. 0 < v" by simp
  from sum_table_pos[OF Cons.prems(1) this]
  have a: "\<forall>(k, v) \<in> set (fold (\<lambda>(letter, prob) all_freq. dict_add all_freq letter prob)
                              t all_freq). 0 < v" .
  from Cons.prems(2) have b: "\<forall>freq_dict \<in> set tables. \<forall>(k, v) \<in> set freq_dict. 0 < v" by simp
  from Cons.IH[OF a b] show ?case by simp
qed

lemma sum_frequencies_pos:
  assumes "\<forall>freq_dict \<in> set tables. \<forall>(k, v) \<in> set freq_dict. 0 < v"
  shows "\<forall>(k, v) \<in> set (sum_frequencies tables). 0 < v"
  unfolding sum_frequencies_def by (rule sum_frequencies_pos_aux[OF _ assms]) simp

lemma dict_get_pos:
  fixes freq :: "(char \<times> real) list"
  assumes "\<forall>(k, v) \<in> set freq. 0 < v" and "0 < dflt"
  shows "0 < dict_get freq letter dflt"
  using dict_get_cases[of freq letter dflt] assms by auto

lemma fallback_freq_ok:
  assumes "wf_hmm h"
  shows "\<exists>freq. (case map_of (letter_frequencies h) n of
              Some freq \<Rightarrow> Inr freq
            | None \<Rightarrow>
                (let all_freq = sum_frequencies (map snd (letter_frequencies h));
                     tot = sum_list (map snd all_freq)
                 in divide_values all_freq tot)) = Inr freq \<and> (\<forall>(k, v) \<in> set freq. 0 < v)"
proof (cases "map_of (letter_frequencies h) n")
  case None
  have "\<forall>freq_dict \<in> set (map snd (letter_frequencies h)). \<forall>(k, v) \<in> set freq_dict. 0 < v"
  proof
    fix freq_dict assume "freq_dict \<in> set (map snd (letter_frequencies h))"
    then obtain m where "(m, freq_dict) \<in> set (letter_frequencies h)" by auto
    with assms show "\<forall>(k, v) \<in> set freq_dict. 0 < v"
      unfolding wf_hmm_def by blast
  qed
  from divide_values_ok[OF sum_frequencies_pos[OF this]] None show ?thesis
    by (auto simp: Let_def)
next
  case (Some freq)
  then have "(n, freq) \<in> set (letter_frequencies h)" by (rule map_of_SomeD)
  with assms have "\<forall>(k, v) \<in> set freq. 0 < v" by (auto simp: wf_hmm_def)
  with Some show ?thesis by simp
qed

lemma fallback_ok:
  assumes "wf_hmm h"
  shows "\<exists>fb. fallback_probabilities h guessed n = Inr fb \<and>
           map fst fb = remaining_letters guessed \<and>
           (\<forall>(letter, p) \<in> set fb. 0 < p) \<and>
           (remaining_letters guessed \<noteq> [] \<longrightarrow> sum_list (map snd fb) = 1)"
proof -
  from fallback_freq_ok[OF assms, of n, unfolded Let_def] obtain freq where
    f: "(case map_of (letter_frequencies h) n of
              Some freq \<Rightarrow> Inr freq
            | None \<Rightarrow>
                divide_values (sum_frequencies (map snd (letter_frequencies h)))
                  (sum_list (map snd (sum_frequencies (map snd (letter_frequencies h)))))) = Inr freq"
    and p: "\<forall>(k, v) \<in> set freq. 0 < v" by blast
  define rf where
    "rf = map (\<lambda>letter. (letter, dict_get freq letter (1 / 100))) (remaining_letters guessed)"
  have "\<forall>(k, v) \<in> set rf. 0 < v"
    using dict_get_pos[OF p, of "1 / 100"] by (auto simp: rf_def)
  from divide_values_ok[OF this] obtain r where
    r: "divide_values rf (sum_list (map snd rf)) = Inr r" "map fst r = map fst rf"
    "\<forall>(k, v) \<in> set r. 0 < v" "rf \<noteq> [] \<longrightarrow> sum_list (map snd r) = 1" by blast
  have k: "map fst rf = remaining_letters guessed" by (simp add: rf_def comp_def)
  have e: "rf \<noteq> [] \<longleftrightarrow> remaining_letters guessed \<noteq> []" by (simp add: rf_def)
  have "fallback_probabilities h guessed n = divide_values rf (sum_list (map snd rf))"
    unfolding fallback_probabilities_def rf_def Let_def by (simp only: f sum.case)
  then have "fallback_probabilities h guessed n = Inr r"
    using r(1) by simp
  with r k e show ?thesis by auto
qed

lemma remaining_nonempty: "remaining_letters guessed \<noteq> [] \<longleftrightarrow> \<not> set alphabet \<subseteq> guessed"
  using set_remaining_letters[of guessed] by (metis Diff_eq_empty_iff set_empty)

lemma predict_ok:
  assumes "wf_hmm h"
  shows "\<exists>probs. predict_letter_probabilities h masked guessed = Inr probs \<and>
           fst ` set probs \<subseteq> set alphabet - guessed \<and> distinct (map fst probs) \<and>
           (\<not> set alphabet \<subseteq> guessed \<longrightarrow> sum_list (map snd probs) = 1)"
proof -
  from fallback_ok[OF assms, of guessed "length masked"] obtain fb where
    fb: "fallback_probabilities h guessed (length masked) = Inr fb"
    "map fst fb = remaining_letters guessed" "\<forall>(letter, p) \<in> set fb. 0 < p"
    "remaining_letters guessed \<noteq> [] \<longrightarrow> sum_list (map snd fb) = 1" by blast
  have "set (map fst fb) = set alphabet - guessed" "distinct (map fst fb)"
    unfolding fb(2) by (simp_all add: set_remaining_letters distinct_remaining_letters)
  then have fbk: "fst ` set fb \<subseteq> set alphabet - guessed" "distinct (map fst fb)" by auto
  show ?thesis
  proof (cases "map_of (models h) (length masked)")
    case None
    with fb fbk show ?thesis
      by (simp add: predict_letter_probabilities_def remaining_nonempty)
  next
    case (Some model)
    then have "(length masked, model) \<in> set (models h)" by (rule map_of_SomeD)
    with assms have "length (emission_probs model) = length masked" by (auto simp: wf_hmm_def)
    from letter_scores_ok[OF this, of guessed] obtain sc where
      sc: "letter_scores model masked guessed = Inr sc"
      "fst ` set sc \<subseteq> set alphabet - guessed" "distinct (map fst sc)" by blast
    define tot where "tot = sum_list (map snd sc)"
    show ?thesis
    proof (cases "tot = 0")
      case True
      with Some sc(1) fb fbk show ?thesis
        by (simp add: predict_letter_probabilities_def remaining_nonempty tot_def Let_def)
    next
      case False
      let ?r = "map (\<lambda>(letter, score). (letter, score / tot)) sc"
      have p: "predict_letter_probabilities h masked guessed = Inr ?r"
        using Some sc(1) False
        by (simp add: predict_letter_probabilities_def tot_def Let_def)
      have mf: "map fst ?r = map fst sc" by (rule map_fst_divide_values)
      have "fst ` set ?r = set (map fst ?r)" by (simp only: set_map)
      also have "\<dots> = fst ` set sc" by (simp only: mf set_map)
      finally have k1: "fst ` set ?r \<subseteq> set alphabet - guessed" using sc(2) by simp
      have k2: "distinct (map fst ?r)" using sc(3) by (simp only: mf)
      note k = k1 k2
      have "sum_list (map snd ?r) = 1"
        unfolding sum_list_divide_values using False by (simp add: tot_def)
      with p k show ?thesis by simp
    qed
  qed
qed

subsection \<open>Examples\<close>

lemma train_ab: "train new_hmm [''ab''] = Inr ab_hmm"
  by (simp add: train_def words_by_length_def isalpha_def alphabet_def dict_get_def
      train_length_model_def dict_add_def divide_counts_def calculate_frequencies_def
      counter_def new_hmm_def ab_hmm_def upt_rec)

lemma train_empty: "train new_hmm [] = Inr new_hmm"
  by (simp add: train_def words_by_length_def)

lemma remaining_letters_empty: "remaining_letters {} = alphabet"
  by (simp add: remaining_letters_def)

lemma predict_ab:
  "predict_letter_probabilities ab_hmm ''__'' {} = Inr [(CHR ''a'', 1 / 2), (CHR ''b'', 1 / 2)]"
  by (simp add: predict_letter_probabilities_def ab_hmm_def letter_scores_def
      filter_matching_words_def position_based_scoring_def remaining_letters_empty
      score_position_def dict_add_def dict_get_def Let_def alphabet_def)

lemma remaining_letters_all: "remaining_letters (set alphabet) = []"
  by (simp add: remaining_letters_def)

lemma predict_all_guessed:
  "predict_letter_probabilities new_hmm ''_'' (set alphabet) = Inr []"
  by (simp add: predict_letter_probabilities_def new_hmm_def fallback_probabilities_def
      sum_frequencies_def divide_values_def remaining_letters_all)

subsection \<open>The distribution returned\<close>

lemma trained_wf: "train new_hmm corpus = Inr h \<Longrightarrow> wf_hmm h"
  using train_ok[OF wf_new_hmm, of corpus] by auto

lemma train_returns: "\<exists>h. train new_hmm corpus = Inr h"
  using train_ok[OF wf_new_hmm, of corpus] by auto

text \<open>
  Claim C1, on the predictor trained on \<^verbatim>\<open>["ab"]\<close>: for the mask \<^verbatim>\<open>__\<close> and no
  guessed letter, one word matches, the positions are scored, and the mapping returned has
  the two keys \<^verbatim>\<open>a\<close> and \<^verbatim>\<open>b\<close>; the letter \<^verbatim>\<open>c\<close> is not guessed and is not a
  key.
\<close>

theorem predict_keys_counterexample:
  "train new_hmm [''ab''] = Inr ab_hmm \<and>
   predict_letter_probabilities ab_hmm ''__'' {} = Inr [(CHR ''a'', 1 / 2), (CHR ''b'', 1 / 2)] \<and>
   CHR ''c'' \<in> set alphabet - {} \<and>
   CHR ''c'' \<notin> fst ` set [(CHR ''a'', 1 / 2 :: real), (CHR ''b'', 1 / 2)]"
  by (simp add: train_ab predict_ab) (simp add: alphabet_def)

text \<open>
  Claim C1, amended.  On a trained predictor, for every masked word and every guessed set
  that does not hold the whole alphabet, \<^verbatim>\<open>predict_letter_probabilities\<close> returns a
  mapping whose keys are distinct letters of the alphabet that are not guessed (letters
  with no score have no key), and whose values sum to 1 in exact arithmetic.
\<close>

theorem predict_distribution:
  assumes "train new_hmm corpus = Inr h" and "\<not> set alphabet \<subseteq> guessed"
  shows "\<exists>probs. predict_letter_probabilities h masked guessed = Inr probs \<and>
           distinct (map fst probs) \<and>
           fst ` set probs \<subseteq> set alphabet - guessed \<and>
           sum_list (map snd probs) = 1"
  using predict_ok[OF trained_wf[OF assms(1)], of masked guessed] assms(2) by blast

theorem predict_distribution_witness:
  "\<exists>probs. predict_letter_probabilities ab_hmm ''__'' {CHR ''a''} = Inr probs \<and>
           distinct (map fst probs) \<and>
           fst ` set probs \<subseteq> set alphabet - {CHR ''a''} \<and>
           sum_list (map snd probs) = 1"
proof -
  have "\<not> set alphabet \<subseteq> {CHR ''a''}" by (simp add: alphabet_def)
  from predict_distribution[OF train_ab this] show ?thesis .
qed

text \<open>
  Claim C8, with every letter guessed: the predictor trained on the empty corpus has no
  length model, the fallback is returned, and it is the empty mapping, whose
  probabilities sum to 0.
\<close>

theorem fallback_counterexample:
  "train new_hmm [] = Inr new_hmm \<and>
   map_of (models new_hmm) (length ''_'') = None \<and>
   predict_letter_probabilities new_hmm ''_'' (set alphabet) = Inr [] \<and>
   sum_list (map snd ([] :: (char \<times> real) list)) \<noteq> 1"
  by (simp add: train_empty predict_all_guessed) (simp add: new_hmm_def)

text \<open>
  Claim C8, amended.  On a trained predictor \<^verbatim>\<open>predict_letter_probabilities\<close> and
  \<^verbatim>\<open>_fallback_probabilities\<close> return without raising, for every masked word and
  guessed set.  When no length model exists for the length of the masked word, or the
  scores of the letters sum to 0, the prediction is the fallback distribution.  Its keys
  are exactly the letters of the alphabet not yet guessed, every one has a positive
  probability, and the probabilities sum to 1 when at least one letter is not guessed.
  With a frequency table for the length, a letter has its frequency, or 0.01 when the
  table does not hold it, divided by the sum of these values over the remaining letters.
\<close>

theorem predict_fallback:
  assumes "train new_hmm corpus = Inr h"
  shows "\<exists>probs fb.
           predict_letter_probabilities h masked guessed = Inr probs \<and>
           fallback_probabilities h guessed (length masked) = Inr fb \<and>
           (map_of (models h) (length masked) = None \<longrightarrow> probs = fb) \<and>
           (\<forall>model scores. map_of (models h) (length masked) = Some model \<longrightarrow>
              letter_scores model masked guessed = Inr scores \<longrightarrow>
              sum_list (map snd scores) = 0 \<longrightarrow> probs = fb) \<and>
           map fst fb = remaining_letters guessed \<and>
           (\<forall>(letter, p) \<in> set fb. 0 < p) \<and>
           (\<not> set alphabet \<subseteq> guessed \<longrightarrow> sum_list (map snd fb) = 1) \<and>
           (\<forall>freq. map_of (letter_frequencies h) (length masked) = Some freq \<longrightarrow>
              fb = (let remaining_freq =
                          map (\<lambda>letter. (letter, dict_get freq letter (1 / 100)))
                            (remaining_letters guessed)
                    in map (\<lambda>(letter, prob). (letter, prob / sum_list (map snd remaining_freq)))
                         remaining_freq))"
proof -
  have wf: "wf_hmm h" using assms by (rule trained_wf)
  from predict_ok[OF wf, of masked guessed] obtain probs where
    p: "predict_letter_probabilities h masked guessed = Inr probs" by blast
  from fallback_ok[OF wf, of guessed "length masked"] obtain fb where
    fb: "fallback_probabilities h guessed (length masked) = Inr fb"
    "map fst fb = remaining_letters guessed" "\<forall>(letter, p) \<in> set fb. 0 < p"
    "remaining_letters guessed \<noteq> [] \<longrightarrow> sum_list (map snd fb) = 1" by blast
  have a: "map_of (models h) (length masked) = None \<longrightarrow> probs = fb"
    using p fb(1) by (auto simp: predict_letter_probabilities_def)
  have b: "\<forall>model scores. map_of (models h) (length masked) = Some model \<longrightarrow>
              letter_scores model masked guessed = Inr scores \<longrightarrow>
              sum_list (map snd scores) = 0 \<longrightarrow> probs = fb"
    using p fb(1) by (auto simp: predict_letter_probabilities_def Let_def)
  have c: "\<forall>freq. map_of (letter_frequencies h) (length masked) = Some freq \<longrightarrow>
              fb = (let remaining_freq =
                          map (\<lambda>letter. (letter, dict_get freq letter (1 / 100)))
                            (remaining_letters guessed)
                    in map (\<lambda>(letter, prob). (letter, prob / sum_list (map snd remaining_freq)))
                         remaining_freq)"
  proof (intro allI impI)
    fix freq assume s: "map_of (letter_frequencies h) (length masked) = Some freq"
    define rf where
      "rf = map (\<lambda>letter. (letter, dict_get freq letter (1 / 100))) (remaining_letters guessed)"
    from s have "(length masked, freq) \<in> set (letter_frequencies h)" by (rule map_of_SomeD)
    with wf have "\<forall>(k, v) \<in> set freq. 0 < v" unfolding wf_hmm_def by blast
    then have "\<forall>(k, v) \<in> set rf. 0 < v"
      using dict_get_pos[of freq "1 / 100"] by (auto simp: rf_def)
    from divide_values_ok[OF this] have
      "divide_values rf (sum_list (map snd rf)) =
         Inr (map (\<lambda>(k, v). (k, v / sum_list (map snd rf))) rf)" by auto
    moreover have "fallback_probabilities h guessed (length masked) =
        divide_values rf (sum_list (map snd rf))"
      unfolding fallback_probabilities_def rf_def Let_def by (simp only: s option.case sum.case)
    ultimately have "fb = map (\<lambda>(k, v). (k, v / sum_list (map snd rf))) rf"
      using fb(1) by simp
    then show "fb = (let remaining_freq =
                          map (\<lambda>letter. (letter, dict_get freq letter (1 / 100)))
                            (remaining_letters guessed)
                    in map (\<lambda>(letter, prob). (letter, prob / sum_list (map snd remaining_freq)))
                         remaining_freq)"
      unfolding Let_def rf_def .
  qed
  have d: "\<not> set alphabet \<subseteq> guessed \<longrightarrow> sum_list (map snd fb) = 1"
    using fb(4) by (simp add: remaining_nonempty)
  show ?thesis
    by (rule exI[of _ probs], rule exI[of _ fb]) (intro conjI p fb(1) fb(2) fb(3) a b c d)
qed

theorem predict_fallback_witness:
  "\<exists>probs fb.
     predict_letter_probabilities ab_hmm ''__'' {CHR ''a'', CHR ''b''} = Inr probs \<and>
     fallback_probabilities ab_hmm {CHR ''a'', CHR ''b''} 2 = Inr fb \<and>
     map fst fb = remaining_letters {CHR ''a'', CHR ''b''} \<and>
     sum_list (map snd fb) = 1"
proof -
  have "\<not> set alphabet \<subseteq> {CHR ''a'', CHR ''b''}" by (simp add: alphabet_def)
  moreover from predict_fallback[OF train_ab, of "''__''" "{CHR ''a'', CHR ''b''}"]
  obtain probs fb where
    "predict_letter_probabilities ab_hmm ''__'' {CHR ''a'', CHR ''b''} = Inr probs"
    "fallback_probabilities ab_hmm {CHR ''a'', CHR ''b''} (length ''__'') = Inr fb"
    "map fst fb = remaining_letters {CHR ''a'', CHR ''b''}"
    "\<not> set alphabet \<subseteq> {CHR ''a'', CHR ''b''} \<longrightarrow> sum_list (map snd fb) = 1"
    by blast
  moreover have "length ''__'' = 2" by simp
  ultimately show ?thesis by metis
qed

section \<open>Properties of the agent\<close>

subsection \<open>Reads of the Q-table\<close>

lemma fst_q_row: "fst (q_row q key) = (case q key of None \<Rightarrow> Map.empty | Some row \<Rightarrow> row)"
  by (simp add: q_row_def split: option.splits)

lemma ran_fst_q_row: "ran (fst (q_row q key)) = q_values q key"
  by (simp add: q_row_def q_values_def split: option.splits)

lemma snd_q_row_same: "snd (q_row q key) key = Some (fst (q_row q key))"
  by (simp add: q_row_def split: option.splits)

lemma q_entry_q_row: "q_entry (snd (q_row q key)) key2 action2 = q_entry q key2 action2"
  by (simp add: q_row_def q_entry_def split: option.splits)

lemma q_values_q_row: "q_values (snd (q_row q key)) key2 = q_values q key2"
  by (simp add: q_row_def q_values_def split: option.splits)

lemma fst_q_read: "fst (q_read q key action) = q_value q key action"
  by (simp add: q_read_def q_row_def q_value_def q_entry_def split: option.splits)

lemma q_entry_q_read:
  "q_entry (snd (q_read q key action)) key2 action2 =
     (if key2 = key \<and> action2 = action \<and> q_entry q key action = None then Some 0
      else q_entry q key2 action2)"
  by (simp add: q_read_def q_row_def q_entry_def split: option.splits)

lemma q_value_q_read: "q_value (snd (q_read q key action)) key2 action2 = q_value q key2 action2"
  by (simp add: q_value_def q_entry_q_read)

lemma q_values_q_read:
  "q_values (snd (q_read q key action)) key2 =
     (if key2 = key \<and> q_entry q key action = None then insert 0 (q_values q key)
      else q_values q key2)"
  by (auto simp: q_read_def q_row_def q_entry_def q_values_def split: option.splits)

lemma ran_empty_iff: "ran m = {} \<longleftrightarrow> m = Map.empty"
proof
  assume r: "ran m = {}"
  have "m a = None" for a
  proof (cases "m a")
    case (Some v)
    then have "v \<in> ran m" by (auto simp: ran_def)
    with r show ?thesis by simp
  qed simp
  then show "m = Map.empty" by (simp add: fun_eq_iff)
qed simp

lemma update_q_value_table:
  "q_table (update_q_value ag state action reward next_state is_done) =
     (let key = get_state_key state;
          q1 = snd (q_read (q_table ag) key action);
          q2 = (if is_done then q1 else snd (q_row q1 (get_state_key next_state)));
          recorded = q_values q1 (get_state_key next_state);
          M = (if is_done \<or> recorded = {} then 0 else Max recorded);
          current_q = q_value (q_table ag) key action
      in (snd (q_row q2 key))(key \<mapsto> (fst (q_row q2 key))(action \<mapsto>
            current_q + learning_rate ag * (reward + discount_factor ag * M - current_q))))"
proof (cases is_done)
  case True
  then show ?thesis
    by (simp add: update_q_value_def Let_def split_beta fst_q_read)
next
  case False
  define q1 where "q1 = snd (q_read (q_table ag) (get_state_key state) action)"
  have e: "(fst (q_row q1 (get_state_key next_state)) \<noteq> Map.empty)
             = (q_values q1 (get_state_key next_state) \<noteq> {})"
    unfolding ran_fst_q_row[symmetric] ran_empty_iff ..
  show ?thesis
  proof (cases "q_values q1 (get_state_key next_state) = {}")
    case True
    with e have "fst (q_row q1 (get_state_key next_state)) = Map.empty" by simp
    with True False show ?thesis
      by (simp add: update_q_value_def Let_def split_beta fst_q_read q1_def[symmetric])
  next
    case n: False
    with e have "fst (q_row q1 (get_state_key next_state)) \<noteq> Map.empty" by simp
    with n False show ?thesis
      by (simp add: update_q_value_def Let_def split_beta fst_q_read q1_def[symmetric]
          ran_fst_q_row)
  qed
qed

lemma q_entry_update_q_value:
  "q_entry (q_table (update_q_value ag state action reward next_state is_done)) key2 action2 =
     (let key = get_state_key state;
          next_key = get_state_key next_state;
          current_q = q_value (q_table ag) key action;
          recorded = (if next_key = key \<and> q_entry (q_table ag) key action = None
                      then insert 0 (q_values (q_table ag) key)
                      else q_values (q_table ag) next_key);
          M = (if is_done \<or> recorded = {} then 0 else Max recorded)
      in if key2 = key \<and> action2 = action
         then Some (current_q + learning_rate ag * (reward + discount_factor ag * M - current_q))
         else q_entry (q_table ag) key2 action2)"
proof -
  define key where "key = get_state_key state"
  define q1 where "q1 = snd (q_read (q_table ag) key action)"
  define q2 where "q2 = (if is_done then q1 else snd (q_row q1 (get_state_key next_state)))"
  have e2: "q_entry q2 k a = q_entry q1 k a" for k a
    by (simp add: q2_def q_entry_q_row)
  have r: "q_entry ((snd (q_row q2 key))(key \<mapsto> (fst (q_row q2 key))(action \<mapsto> v))) key2 action2
        = (if key2 = key \<and> action2 = action then Some v else q_entry q2 key2 action2)" for v
    by (simp add: q_entry_def q_row_def split: option.splits)
  show ?thesis
    unfolding update_q_value_table Let_def key_def[symmetric] q1_def[symmetric] q2_def[symmetric] r e2
    by (simp add: q1_def q_entry_q_read q_values_q_read key_def)
qed


subsection \<open>The exploitation loop\<close>

text \<open>
  The comparison of floats: it is irreflexive and transitive, and a value that is not
  greater than \<open>a\<close> is smaller than every value greater than \<open>a\<close>, unless it is
  not a number.
\<close>

lemma float_gt_irrefl: "\<not> float_gt x x"
  by (cases x) simp_all

lemma float_gt_trans: "float_gt x y \<Longrightarrow> float_gt y z \<Longrightarrow> float_gt x z"
  by (cases x; cases y; cases z) simp_all

lemma float_gt_not_gt: "float_gt x a \<Longrightarrow> \<not> float_gt b a \<Longrightarrow> \<not> float_gt b x"
  by (cases x; cases a; cases b) simp_all

lemma float_gt_le: "float_gt x a \<Longrightarrow> \<not> float_gt b a \<Longrightarrow> float_gt x b \<or> b = NaN"
  by (cases x; cases a; cases b) simp_all

lemma float_gt_NegInf: "float_gt x a \<Longrightarrow> float_gt x NegInf"
  by (cases x; cases a) simp_all

lemma not_float_gt_NegInf: "\<not> float_gt b NegInf \<longleftrightarrow> b = NaN \<or> b = NegInf"
  by (cases b) simp_all

text \<open>
  One iteration keeps the invariant of the loop, and so does the loop; the reads of the
  loop record defaults in the table and change no value that a read returns.
\<close>

lemma best_so_far_step:
  assumes "best_so_far c seen bs ba"
  shows "best_so_far c (seen @ [x])
           (if float_gt (c x) bs then c x else bs)
           (if float_gt (c x) bs then Some x else ba)"
proof (cases "float_gt (c x) bs")
  case True
  have top: "float_gt (c x) NegInf" using True by (rule float_gt_NegInf)
  have "\<forall>j < length seen. (float_gt (c x) (c (seen ! j)) \<or> c (seen ! j) = NaN) \<and>
          \<not> float_gt (c (seen ! j)) (c x)"
  proof (intro allI impI)
    fix j assume j: "j < length seen"
    from assms consider
        (none) "bs = NegInf" "\<forall>j < length seen. \<not> float_gt (c (seen ! j)) NegInf"
      | (some) i where "i < length seen" "bs = c (seen ! i)"
          "\<forall>j < length seen. \<not> float_gt (c (seen ! j)) (c (seen ! i))"
      unfolding best_so_far_def by blast
    then have "\<not> float_gt (c (seen ! j)) bs"
      using j by cases auto
    with True show "(float_gt (c x) (c (seen ! j)) \<or> c (seen ! j) = NaN) \<and>
          \<not> float_gt (c (seen ! j)) (c x)"
      using float_gt_le[of "c x" bs "c (seen ! j)"] float_gt_not_gt[of "c x" bs "c (seen ! j)"]
      by blast
  qed
  then have a: "\<forall>j < length seen. float_gt (c x) (c ((seen @ [x]) ! j)) \<or> c ((seen @ [x]) ! j) = NaN"
    and b: "\<forall>j < length (seen @ [x]). \<not> float_gt (c ((seen @ [x]) ! j)) (c x)"
    by (auto simp: nth_append less_Suc_eq float_gt_irrefl)
  have "\<exists>k < length (seen @ [x]). Some x = Some ((seen @ [x]) ! k) \<and> c x = c ((seen @ [x]) ! k) \<and>
        float_gt (c ((seen @ [x]) ! k)) NegInf \<and>
        (\<forall>j < k. float_gt (c ((seen @ [x]) ! k)) (c ((seen @ [x]) ! j)) \<or> c ((seen @ [x]) ! j) = NaN) \<and>
        (\<forall>j < length (seen @ [x]). \<not> float_gt (c ((seen @ [x]) ! j)) (c ((seen @ [x]) ! k)))"
    using a b top by (intro exI[of _ "length seen"]) simp
  with True show ?thesis by (simp add: best_so_far_def)
next
  case False
  from assms consider
      (none) "ba = None" "bs = NegInf" "\<forall>j < length seen. \<not> float_gt (c (seen ! j)) NegInf"
    | (some) i where "i < length seen" "ba = Some (seen ! i)" "bs = c (seen ! i)"
        "float_gt (c (seen ! i)) NegInf"
        "\<forall>j < i. float_gt (c (seen ! i)) (c (seen ! j)) \<or> c (seen ! j) = NaN"
        "\<forall>j < length seen. \<not> float_gt (c (seen ! j)) (c (seen ! i))"
    unfolding best_so_far_def by blast
  then show ?thesis
  proof cases
    case none
    have "\<forall>j < length (seen @ [x]). \<not> float_gt (c ((seen @ [x]) ! j)) NegInf"
      using none(3) False none(2) by (auto simp: nth_append less_Suc_eq)
    with none(1,2) False show ?thesis by (simp add: best_so_far_def)
  next
    case some
    have e: "(seen @ [x]) ! i = seen ! i" using some(1) by (simp add: nth_append)
    have a: "\<forall>j < i. float_gt (c (seen ! i)) (c ((seen @ [x]) ! j)) \<or> c ((seen @ [x]) ! j) = NaN"
      using some(1,5) by (auto simp: nth_append)
    have b: "\<forall>j < length (seen @ [x]). \<not> float_gt (c ((seen @ [x]) ! j)) (c (seen ! i))"
      using some(6,3) False by (auto simp: nth_append less_Suc_eq)
    have "\<exists>k < length (seen @ [x]). ba = Some ((seen @ [x]) ! k) \<and> bs = c ((seen @ [x]) ! k) \<and>
        float_gt (c ((seen @ [x]) ! k)) NegInf \<and>
        (\<forall>j < k. float_gt (c ((seen @ [x]) ! k)) (c ((seen @ [x]) ! j)) \<or> c ((seen @ [x]) ! j) = NaN) \<and>
        (\<forall>j < length (seen @ [x]). \<not> float_gt (c ((seen @ [x]) ! j)) (c ((seen @ [x]) ! k)))"
      using a b some(1,2,3,4) e by (intro exI[of _ i]) simp
    with False show ?thesis by (simp add: best_so_far_def)
  qed
qed

lemma exploit_loop_inv:
  assumes "best_so_far (combined_score m q0 key probs) seen bs ba"
    and "\<forall>k a. q_value q k a = q_value q0 k a"
  shows "\<exists>bs' ba' q'. exploit_loop m xs key probs q bs ba = (bs', ba', q') \<and>
           best_so_far (combined_score m q0 key probs) (seen @ xs) bs' ba' \<and>
           (\<forall>k a. q_value q' k a = q_value q0 k a)"
  using assms
proof (induction xs arbitrary: seen q bs ba)
  case Nil
  then show ?case by simp
next
  case (Cons x xs)
  let ?c = "combined_score m q0 key probs"
  let ?q = "snd (q_read q key x)"
  let ?t = "float_gt (?c x) bs"
  have hq: "q_value q k a = q_value q0 k a" for k a
    using Cons.prems(2) by blast
  have v: "fadd m (fst (q_read q key x))
             (fmul m (dict_get probs x (fliteral m (1 / 1000))) (Finite 10)) = ?c x"
    by (simp add: fst_q_read combined_score_def hq)
  have q: "\<forall>k a. q_value ?q k a = q_value q0 k a"
    by (intro allI) (simp only: q_value_q_read hq)
  from best_so_far_step[OF Cons.prems(1), of x]
  have b: "best_so_far ?c (seen @ [x]) (if ?t then ?c x else bs) (if ?t then Some x else ba)" .
  from Cons.IH[OF b q] obtain bs' ba' q' where
    r: "exploit_loop m xs key probs ?q (if ?t then ?c x else bs) (if ?t then Some x else ba)
          = (bs', ba', q')"
    "best_so_far ?c ((seen @ [x]) @ xs) bs' ba'" "\<forall>k a. q_value q' k a = q_value q0 k a"
    by blast
  have "exploit_loop m (x # xs) key probs q bs ba =
      exploit_loop m xs key probs ?q (if ?t then ?c x else bs) (if ?t then Some x else ba)"
    by (simp add: split_beta Let_def v)
  then have "exploit_loop m (x # xs) key probs q bs ba = (bs', ba', q')"
    using r(1) by simp
  with r(2,3) show ?case by simp
qed

text \<open>
  The example: the predictor trained on \<^verbatim>\<open>["ab"]\<close> gives the letters \<open>a\<close> and
  \<open>b\<close> the probability 1/2 each, so the score of a letter is its recorded value, or
  0, plus 5 for \<open>a\<close> and \<open>b\<close> and plus 0.01 for any other letter.
\<close>

lemma fpredict_ab:
  "fpredict exact_machine (hmm (float_agent q)) (gs_masked_word two_blanks)
     (gs_guessed_letters two_blanks) =
     Inr [(CHR ''a'', Finite (1 / 2)), (CHR ''b'', Finite (1 / 2))]"
  by (simp add: exact_machine_def float_agent_def two_blanks_def predict_ab)

lemma key_two_blanks: "get_state_key two_blanks = (''__'', [], 6)"
  by (simp add: get_state_key_def two_blanks_def)

lemma combined_score_ab:
  "combined_score exact_machine [(''__'', [], 6) \<mapsto> row] (''__'', [], 6)
     [(CHR ''a'', Finite (1 / 2)), (CHR ''b'', Finite (1 / 2))] action =
     exact_add (case row action of None \<Rightarrow> Finite 0 | Some v \<Rightarrow> v)
       (if action = CHR ''a'' \<or> action = CHR ''b'' then Finite 5 else Finite (1 / 100))"
  by (simp add: combined_score_def exact_machine_def q_value_def q_entry_def dict_get_def
      zero_pyfloat_def split: option.splits)

subsection \<open>The temporal-difference update\<close>

text \<open>
  Claim C7, when the next state has the key of the state (as after a repeated guess) and
  no value is recorded for the action: the table holds \<open>-3\<close> for another action of
  that key, so the maximum of the recorded values is \<open>-3\<close> and the rule of the claim
  gives \<open>-0.285\<close>.  The code stores 0: its read of \<^verbatim>\<open>Q[s][a]\<close> has recorded the
  default 0 before the maximum is taken.
\<close>

theorem td_update_counterexample:
  "q_entry (q_table (update_q_value
       (example_agent [(''_'', [], 6) \<mapsto> [CHR ''b'' \<mapsto> - 3]])
       \<lparr> gs_masked_word = ''_'', gs_guessed_letters = {}, gs_wrong_guesses = 0,
         gs_lives_remaining = 6, gs_game_over = False, gs_won = False, gs_target_word = ''a'' \<rparr>
       (CHR ''a'') 0
       \<lparr> gs_masked_word = ''_'', gs_guessed_letters = {}, gs_wrong_guesses = 0,
         gs_lives_remaining = 6, gs_game_over = False, gs_won = False, gs_target_word = ''a'' \<rparr>
       False)) (''_'', [], 6) (CHR ''a'') = Some 0 \<and>
   q_values (q_table (example_agent [(''_'', [], 6) \<mapsto> [CHR ''b'' \<mapsto> - 3]])) (''_'', [], 6) = {- 3} \<and>
   q_value (q_table (example_agent [(''_'', [], 6) \<mapsto> [CHR ''b'' \<mapsto> - 3]])) (''_'', [], 6) (CHR ''a'') = 0 \<and>
   (0::real) + learning_rate (example_agent [(''_'', [], 6) \<mapsto> [CHR ''b'' \<mapsto> - 3]])
        * (0 + discount_factor (example_agent [(''_'', [], 6) \<mapsto> [CHR ''b'' \<mapsto> - 3]]) * Max {- 3} - 0)
     = - 285 / 1000"
  unfolding q_entry_update_q_value
  by (simp add: get_state_key_def example_agent_def q_entry_def q_values_def q_value_def
      Let_def)

text \<open>
  Claim C7, amended.  \<^verbatim>\<open>update_q_value\<close> sets \<open>Q[s,a]\<close> to
  \<open>Q[s,a] + \<alpha> * (reward + \<gamma> * M - Q[s,a])\<close>, in exact arithmetic, where \<open>Q[s,a]\<close> is
  0 when nothing is recorded, and \<open>M\<close> is 0 when \<^verbatim>\<open>done\<close> is true or no value is
  recorded for the key of the next state, and otherwise the maximum of the values recorded
  for that key.  The values are those recorded after the read of \<open>Q[s,a]\<close>, which
  records the default 0 for \<open>(s,a)\<close> when it was absent: they are the values recorded
  before the call unless the next state has the key of the state and \<open>(s,a)\<close> was
  absent.  No other entry of the table changes, and no other field of the agent.
\<close>

theorem td_update:
  "let key = get_state_key state;
       next_key = get_state_key next_state;
       Q = q_table ag;
       ag' = update_q_value ag state action reward next_state is_done;
       current_q = q_value Q key action;
       recorded = (if next_key = key \<and> q_entry Q key action = None
                   then insert 0 (q_values Q key)
                   else q_values Q next_key);
       M = (if is_done \<or> recorded = {} then 0 else Max recorded)
   in q_entry (q_table ag') key action =
        Some (current_q + learning_rate ag * (reward + discount_factor ag * M - current_q)) \<and>
      (\<forall>key2 action2. (key2, action2) \<noteq> (key, action) \<longrightarrow>
         q_entry (q_table ag') key2 action2 = q_entry Q key2 action2) \<and>
      (next_key \<noteq> key \<or> q_entry Q key action \<noteq> None \<longrightarrow> recorded = q_values Q next_key) \<and>
      ag' = ag \<lparr> q_table := q_table ag' \<rparr>"
proof -
  have "update_q_value ag state action reward next_state is_done =
      ag \<lparr> q_table := q_table (update_q_value ag state action reward next_state is_done) \<rparr>"
    by (simp add: update_q_value_def Let_def split_beta)
  then show ?thesis
    unfolding Let_def q_entry_update_q_value by auto
qed

theorem td_update_witness:
  "q_entry (q_table (update_q_value
       (example_agent [(''___'', [], 6) \<mapsto> [CHR ''a'' \<mapsto> 1],
                       (''_a_'', [CHR ''a''], 6) \<mapsto> [CHR ''c'' \<mapsto> 2, CHR ''t'' \<mapsto> 5]])
       (get_state (cat_game 6 ''___'' {} 0 False)) (CHR ''a'') 10
       (get_state (cat_game 6 ''_a_'' {CHR ''a''} 0 False)) False))
     (get_state_key (get_state (cat_game 6 ''___'' {} 0 False))) (CHR ''a'') = Some (19 / 8)"
proof -
  note t = td_update[of "get_state (cat_game 6 ''___'' {} 0 False)"
      "get_state (cat_game 6 ''_a_'' {CHR ''a''} 0 False)"
      "example_agent [(''___'', [], 6) \<mapsto> [CHR ''a'' \<mapsto> 1],
                       (''_a_'', [CHR ''a''], 6) \<mapsto> [CHR ''c'' \<mapsto> 2, CHR ''t'' \<mapsto> 5]]"
      "CHR ''a''" 10 False, unfolded Let_def, THEN conjunct1]
  show ?thesis
    unfolding t
    by (simp add: get_state_key_def get_state_def cat_game_def example_agent_def q_entry_def
        q_values_def q_value_def)
qed


subsection \<open>The exploitation branch\<close>

text \<open>
  Claim C2, the fallback.  The claim has \<^verbatim>\<open>choose_action\<close> return a uniformly random
  choice among the available letters whenever all combined scores are non-positive.  On the
  predictor trained on \<^verbatim>\<open>["ab"]\<close>, with the values \<open>-100\<close> and \<open>-200\<close>
  recorded for \<open>a\<close> and \<open>b\<close>, the scores are \<open>-95\<close> and \<open>-195\<close>, none
  of them greater than 0; the draw of index 1 would give \<open>b\<close>, and the code returns
  \<open>a\<close>, the letter of the greatest score.
\<close>

theorem exploit_counterexample:
  "fpredict exact_machine
     (hmm (float_agent [(''__'', [], 6) \<mapsto> [CHR ''a'' \<mapsto> Finite (- 100), CHR ''b'' \<mapsto> Finite (- 200)]]))
     (gs_masked_word two_blanks) (gs_guessed_letters two_blanks) =
     Inr [(CHR ''a'', Finite (1 / 2)), (CHR ''b'', Finite (1 / 2))] \<and>
   combined_score exact_machine
     (q_table (float_agent [(''__'', [], 6) \<mapsto> [CHR ''a'' \<mapsto> Finite (- 100), CHR ''b'' \<mapsto> Finite (- 200)]]))
     (get_state_key two_blanks) [(CHR ''a'', Finite (1 / 2)), (CHR ''b'', Finite (1 / 2))] (CHR ''a'')
     = Finite (- 95) \<and>
   combined_score exact_machine
     (q_table (float_agent [(''__'', [], 6) \<mapsto> [CHR ''a'' \<mapsto> Finite (- 100), CHR ''b'' \<mapsto> Finite (- 200)]]))
     (get_state_key two_blanks) [(CHR ''a'', Finite (1 / 2)), (CHR ''b'', Finite (1 / 2))] (CHR ''b'')
     = Finite (- 195) \<and>
   \<not> float_gt (Finite (- 95)) (Finite 0) \<and>
   \<not> float_gt (Finite (- 195)) (Finite 0) \<and>
   random_choice ''ab'' 1 = Inr (CHR ''b'') \<and>
   choose_action_exploit exact_machine
     (float_agent [(''__'', [], 6) \<mapsto> [CHR ''a'' \<mapsto> Finite (- 100), CHR ''b'' \<mapsto> Finite (- 200)]])
     two_blanks ''ab'' 1 =
     Inr (Some (CHR ''a''),
          float_agent [(''__'', [], 6) \<mapsto> [CHR ''a'' \<mapsto> Finite (- 100), CHR ''b'' \<mapsto> Finite (- 200)]])"
proof -
  let ?ag = "float_agent [(''__'', [], 6) \<mapsto> [CHR ''a'' \<mapsto> Finite (- 100), CHR ''b'' \<mapsto> Finite (- 200)]]"
  have q: "q_table ?ag = [(''__'', [], 6) \<mapsto> [CHR ''a'' \<mapsto> Finite (- 100), CHR ''b'' \<mapsto> Finite (- 200)]]"
    by (simp add: float_agent_def)
  have c: "combined_score exact_machine (q_table ?ag) (get_state_key two_blanks)
      [(CHR ''a'', Finite (1 / 2)), (CHR ''b'', Finite (1 / 2))] (CHR ''a'') = Finite (- 95)"
    "combined_score exact_machine (q_table ?ag) (get_state_key two_blanks)
      [(CHR ''a'', Finite (1 / 2)), (CHR ''b'', Finite (1 / 2))] (CHR ''b'') = Finite (- 195)"
    unfolding q key_two_blanks combined_score_ab by simp_all
  have r: "random_choice ''ab'' 1 = Inr (CHR ''b'')" by (simp add: random_choice_def)
  have e: "choose_action_exploit exact_machine ?ag two_blanks ''ab'' 1 = Inr (Some (CHR ''a''), ?ag)"
    unfolding choose_action_exploit_def fpredict_ab key_two_blanks
    by (simp add: q_read_def q_row_def float_agent_def exact_machine_def dict_get_def Let_def)
  from fpredict_ab c r e show ?thesis by simp
qed

text \<open>
  Claim C2, amended.  Let the predictor return \<open>hmm_probs\<close> and the list of the
  available actions be non-empty, and let the score of a letter be the float sum of the
  value that the Q-table returns for it and the float product of its probability, 0.001 for
  a letter absent from \<open>hmm_probs\<close>, and 10.  If some available letter has a score
  greater than minus infinity, \<^verbatim>\<open>choose_action\<close> with \<^verbatim>\<open>training=False\<close>
  returns, whatever the random draw, an available letter whose score is greater than minus
  infinity, that no score of an available letter exceeds, and that comes first among such
  letters: every letter before it has a smaller score or a score that is not a number.  This
  holds also when all the scores are negative.  If no available letter has a score greater
  than minus infinity, that is every score is minus infinity or not a number, it returns
  the letter that \<^verbatim>\<open>random.choice\<close> draws from the available actions.  In both cases
  the values that the Q-table returns are unchanged.  The theorem holds for every float
  sum, product, literal and predictor of the machine.
\<close>

theorem exploit_argmax:
  assumes "fpredict m (hmm ag) (gs_masked_word state) (gs_guessed_letters state) = Inr hmm_probs"
    and "available \<noteq> []"
  shows "let c = combined_score m (q_table ag) (get_state_key state) hmm_probs
         in ((\<exists>a \<in> set available. float_gt (c a) NegInf) \<longrightarrow>
              (\<exists>i ag'. i < length available \<and>
                 (\<forall>r. choose_action_exploit m ag state available r
                        = Inr (Some (available ! i), ag')) \<and>
                 float_gt (c (available ! i)) NegInf \<and>
                 (\<forall>j < length available. \<not> float_gt (c (available ! j)) (c (available ! i))) \<and>
                 (\<forall>j < i. float_gt (c (available ! i)) (c (available ! j))
                            \<or> c (available ! j) = NaN) \<and>
                 (\<forall>key action. q_value (q_table ag') key action
                    = q_value (q_table ag) key action))) \<and>
            ((\<forall>a \<in> set available. \<not> float_gt (c a) NegInf) \<longrightarrow>
              (\<exists>ag'. (\<forall>r. choose_action_exploit m ag state available r
                        = Inr (Some (available ! (r mod length available)), ag')) \<and>
                 (\<forall>key action. q_value (q_table ag') key action
                    = q_value (q_table ag) key action)))"
proof -
  let ?key = "get_state_key state"
  let ?c = "combined_score m (q_table ag) ?key hmm_probs"
  have i0: "best_so_far ?c [] NegInf None" by (simp add: best_so_far_def)
  have q0: "\<forall>k a. q_value (q_table ag) k a = q_value (q_table ag) k a" by simp
  from exploit_loop_inv[OF i0 q0, of available] obtain bs ba q' where
    l: "exploit_loop m available ?key hmm_probs (q_table ag) NegInf None = (bs, ba, q')"
    and b: "best_so_far ?c ([] @ available) bs ba"
    and q: "\<forall>k a. q_value q' k a = q_value (q_table ag) k a"
    by blast
  let ?ag = "ag \<lparr> q_table := q' \<rparr>"
  have qa: "\<forall>key action. q_value (q_table ?ag) key action = q_value (q_table ag) key action"
    using q by simp
  have ch: "choose_action_exploit m ag state available r =
      (case ba of
         Some action \<Rightarrow> Inr (Some action, ?ag)
       | None \<Rightarrow> Inr (Some (available ! (r mod length available)), ?ag))" for r
    using assms l
    by (cases ba) (simp_all add: choose_action_exploit_def Let_def random_choice_def)
  from b consider
      (none) "ba = None" "\<forall>j < length available. \<not> float_gt (?c (available ! j)) NegInf"
    | (some) i where "i < length available" "ba = Some (available ! i)"
        "float_gt (?c (available ! i)) NegInf"
        "\<forall>j < i. float_gt (?c (available ! i)) (?c (available ! j)) \<or> ?c (available ! j) = NaN"
        "\<forall>j < length available. \<not> float_gt (?c (available ! j)) (?c (available ! i))"
    unfolding best_so_far_def by auto
  then show ?thesis
  proof cases
    case none
    have n: "\<not> (\<exists>a \<in> set available. float_gt (?c a) NegInf)"
      using none(2) by (auto simp: in_set_conv_nth)
    have "\<forall>r. choose_action_exploit m ag state available r
            = Inr (Some (available ! (r mod length available)), ?ag)"
      using ch none(1) by simp
    with qa n show ?thesis unfolding Let_def by blast
  next
    case some
    have n: "\<not> (\<forall>a \<in> set available. \<not> float_gt (?c a) NegInf)"
      using some(1,3) nth_mem[of i available] by blast
    have "\<forall>r. choose_action_exploit m ag state available r = Inr (Some (available ! i), ?ag)"
      using ch some(2) by simp
    with qa n some(1,3,4,5) show ?thesis unfolding Let_def by blast
  qed
qed

text \<open>
  The theorem at two inputs, on the machine of the examples.  With the values 1 and 3
  recorded for \<open>a\<close> and \<open>b\<close>, the scores of \<open>a\<close>, \<open>b\<close> and \<open>c\<close>
  are 6, 8 and 0.01 and the code returns \<open>b\<close> whatever the draw.  With minus infinity
  recorded for both \<open>a\<close> and \<open>b\<close>, no score is greater than minus infinity and
  the code returns the letter drawn.
\<close>

theorem exploit_argmax_witness:
  "(\<exists>ag'. \<forall>r. choose_action_exploit exact_machine
       (float_agent [(''__'', [], 6) \<mapsto> [CHR ''a'' \<mapsto> Finite 1, CHR ''b'' \<mapsto> Finite 3]])
       two_blanks ''abc'' r = Inr (Some (CHR ''b''), ag')) \<and>
   (\<exists>ag'. \<forall>r. choose_action_exploit exact_machine
       (float_agent [(''__'', [], 6) \<mapsto> [CHR ''a'' \<mapsto> NegInf, CHR ''b'' \<mapsto> NegInf]])
       two_blanks ''ab'' r = Inr (Some (''ab'' ! (r mod length ''ab'')), ag'))"
proof
  let ?ag = "float_agent [(''__'', [], 6) \<mapsto> [CHR ''a'' \<mapsto> Finite 1, CHR ''b'' \<mapsto> Finite 3]]"
  let ?c = "combined_score exact_machine (q_table ?ag) (get_state_key two_blanks)
      [(CHR ''a'', Finite (1 / 2)), (CHR ''b'', Finite (1 / 2))]"
  have q: "q_table ?ag = [(''__'', [], 6) \<mapsto> [CHR ''a'' \<mapsto> Finite 1, CHR ''b'' \<mapsto> Finite 3]]"
    by (simp add: float_agent_def)
  have c: "?c (CHR ''a'') = Finite 6" "?c (CHR ''b'') = Finite 8" "?c (CHR ''c'') = Finite (1 / 100)"
    unfolding q key_two_blanks combined_score_ab by simp_all
  have n: "''abc'' \<noteq> []" by simp
  have p: "\<exists>a \<in> set ''abc''. float_gt (?c a) NegInf" using c by simp
  from exploit_argmax[OF fpredict_ab n, of "[(''__'', [], 6) \<mapsto> [CHR ''a'' \<mapsto> Finite 1, CHR ''b'' \<mapsto> Finite 3]]",
      unfolded Let_def, THEN conjunct1, THEN mp, OF p]
  obtain i ag' where i: "i < length ''abc''"
    "\<forall>r. choose_action_exploit exact_machine ?ag two_blanks ''abc'' r = Inr (Some (''abc'' ! i), ag')"
    "\<forall>j < length ''abc''. \<not> float_gt (?c (''abc'' ! j)) (?c (''abc'' ! i))"
    by blast
  from i(3)[rule_format, of 1] have m: "\<not> float_gt (?c (''abc'' ! 1)) (?c (''abc'' ! i))" by simp
  from i(1) have "i = 0 \<or> i = 1 \<or> i = 2" by auto
  with m c have "i = 1" by auto
  with i(2) show "\<exists>ag'. \<forall>r. choose_action_exploit exact_machine ?ag two_blanks ''abc'' r
      = Inr (Some (CHR ''b''), ag')" by auto
next
  let ?ag = "float_agent [(''__'', [], 6) \<mapsto> [CHR ''a'' \<mapsto> NegInf, CHR ''b'' \<mapsto> NegInf]]"
  let ?c = "combined_score exact_machine (q_table ?ag) (get_state_key two_blanks)
      [(CHR ''a'', Finite (1 / 2)), (CHR ''b'', Finite (1 / 2))]"
  have q: "q_table ?ag = [(''__'', [], 6) \<mapsto> [CHR ''a'' \<mapsto> NegInf, CHR ''b'' \<mapsto> NegInf]]"
    by (simp add: float_agent_def)
  have c: "?c (CHR ''a'') = NegInf" "?c (CHR ''b'') = NegInf"
    unfolding q key_two_blanks combined_score_ab by simp_all
  have n: "''ab'' \<noteq> []" by simp
  have p: "\<forall>a \<in> set ''ab''. \<not> float_gt (?c a) NegInf" using c by simp
  from exploit_argmax[OF fpredict_ab n, of "[(''__'', [], 6) \<mapsto> [CHR ''a'' \<mapsto> NegInf, CHR ''b'' \<mapsto> NegInf]]",
      unfolded Let_def, THEN conjunct2, THEN mp, OF p]
  show "\<exists>ag'. \<forall>r. choose_action_exploit exact_machine ?ag two_blanks ''ab'' r
      = Inr (Some (''ab'' ! (r mod length ''ab'')), ag')" by blast
qed

end
